theory Spec2Isabelle
  imports Main "HOL-Library.Char_ord" "HOL-Library.List_Lexorder" "HOL-Library.Product_Lexorder"
begin

section \<open>Data model of the staking indexer\<close>

text \<open>
  The source is \<^verbatim>\<open>src/framework/chain/staking.ts\<close>. Credentials, reward addresses, pool
  identifiers and transaction identifiers are JavaScript strings; a \<^verbatim>\<open>Lovelace\<close> amount
  is a \<^verbatim>\<open>bigint\<close>; a slot is a non-negative number.
\<close>

type_synonym StakingHash = string
type_synonym RewardAddress = string
type_synonym PoolId = string
type_synonym TxHash = string
type_synonym Lovelace = int
type_synonym Slot = nat

datatype StakingType = Key | Script

text \<open>\<^verbatim>\<open>ChainStakingActionWithPayload\<close>: the action tag together with its payload.\<close>

datatype ChainStakingActionWithPayload =
    Delegate PoolId
  | Register
  | Deregister
  | Withdraw Lovelace

record ChainStaking =
  hash :: StakingHash
  slot :: Slot
  txId :: TxHash
  action :: ChainStakingActionWithPayload

record ChainStakingState =
  state_hash :: StakingHash
  address :: RewardAddress
  poolId :: "PoolId option"
  rewards :: Lovelace
  reloadedSlot :: Slot

text \<open>The ledger tip answered by the state source: \<^verbatim>\<open>"origin"\<close> or a point.\<close>

datatype Tip = Origin | Point Slot string

text \<open>One entry of the answer of \<^verbatim>\<open>delegationsAndRewards\<close>; both fields are optional.\<close>

record DelegationsAndRewards =
  delegate :: "PoolId option"
  entry_rewards :: "Lovelace option"

subsection \<open>JavaScript \<^verbatim>\<open>Map\<close> and \<^verbatim>\<open>Set\<close>\<close>

text \<open>
  A \<^verbatim>\<open>Map\<close> iterates in insertion order and \<^verbatim>\<open>set\<close> on a present key keeps the key's
  position, so a map is an association list: \<open>jsmap_set\<close> overwrites in place or appends.
  A \<^verbatim>\<open>Set\<close> is a list in insertion order; \<open>jsset_add\<close> of a present element does nothing.
\<close>

fun jsmap_set :: "'k \<Rightarrow> 'v \<Rightarrow> ('k \<times> 'v) list \<Rightarrow> ('k \<times> 'v) list" where
  "jsmap_set k v [] = [(k, v)]"
| "jsmap_set k v (p # m) = (if fst p = k then (k, v) # m else p # jsmap_set k v m)"

definition jsmap_get :: "'k \<Rightarrow> ('k \<times> 'v) list \<Rightarrow> 'v option" where
  "jsmap_get k m = map_of m k"

definition jsmap_has :: "'k \<Rightarrow> ('k \<times> 'v) list \<Rightarrow> bool" where
  "jsmap_has k m = (map_of m k \<noteq> None)"

definition jsmap_delete :: "'k \<Rightarrow> ('k \<times> 'v) list \<Rightarrow> ('k \<times> 'v) list" where
  "jsmap_delete k m = filter (\<lambda>p. fst p \<noteq> k) m"

definition jsmap_values :: "('k \<times> 'v) list \<Rightarrow> 'v list" where
  "jsmap_values m = map snd m"

definition jsset_add :: "'a \<Rightarrow> 'a list \<Rightarrow> 'a list" where
  "jsset_add x xs = (if x \<in> set xs then xs else xs @ [x])"

definition jsset_has :: "'a \<Rightarrow> 'a list \<Rightarrow> bool" where
  "jsset_has x xs = (x \<in> set xs)"

text \<open>
  A value of type \<^verbatim>\<open>string | undefined\<close> is an option; where the code tests such a value
  for truthiness, \<^verbatim>\<open>undefined\<close> and the empty string are both falsy, and the model has a
  case for \<open>None\<close> and a test for the empty string.
\<close>

subsection \<open>The closure state of \<^verbatim>\<open>createStakingIndexer\<close>\<close>

record staking =
  toReload :: "StakingHash list"
  toRemove :: "StakingHash list"
  registry :: "(StakingHash \<times> RewardAddress) list"
  revRegistry :: "(RewardAddress \<times> StakingHash) list"
  fullReload :: bool
  willReloadDynamically :: bool
  isActive :: bool

text \<open>What the code prints, and what it does to its collaborators, in the order it does it.\<close>

datatype message =
    Inactive_Ignored_Reload "StakingHash list option"
  | Reloading_All
  | Reloading nat
  | Address_to_not_found StakingHash
  | Address_from_not_found StakingHash
  | Removed StakingHash RewardAddress
  | Reloaded nat Tip
  | Clear
  | Reboot
  | Watched StakingType StakingHash RewardAddress
  | Watched_batch nat StakingType
  | Unwatched StakingHash
  | Not_Found StakingHash

datatype effect =
    Console_log message
  | Console_warn message
  | ReloadDebounce
  | LedgerTip
  | DelegationsAndRewards "RewardAddress list"
  | Upsert_staking_state "ChainStakingState list"
  | OnReloaded "RewardAddress list" bool
  | Queue_pause
  | Queue_drained
  | Queue_resume
  | Select_active_hashes
  | StoreBlock
  | Insert_staking "ChainStaking list"
  | Call_unwatch StakingHash
  | Call_reload "StakingHash list option"

text \<open>The state right after \<^verbatim>\<open>createStakingIndexer\<close>, before \<^verbatim>\<open>start\<close>.\<close>

definition createStakingIndexer :: staking where
  "createStakingIndexer =
     \<lparr>toReload = [], toRemove = [], registry = [], revRegistry = [],
      fullReload = False, willReloadDynamically = False, isActive = False\<rparr>"

section \<open>The reload scheduler\<close>

text \<open>
  \<^verbatim>\<open>reload(hashes)\<close>, with \<^verbatim>\<open>null\<close> as \<open>None\<close>. \<open>ReloadDebounce\<close> records a call of the
  debounced scheduling function.
\<close>

definition reload :: "StakingHash list option \<Rightarrow> staking \<Rightarrow> staking \<times> effect list" where
  "reload hashes s =
     (if fullReload s then (s, [])
      else case hashes of
        None \<Rightarrow> (s\<lparr>fullReload := True\<rparr>, [ReloadDebounce])
      | Some hs \<Rightarrow>
          (s\<lparr>toReload := fold jsset_add hs (toReload s)\<rparr>,
           if willReloadDynamically s then [ReloadDebounce] else []))"

section \<open>The registry operations\<close>

text \<open>
  \<^verbatim>\<open>lucid.utils.credentialToRewardAddress\<close> belongs to an external library; every operation
  that derives an address takes it as the parameter \<open>credentialToRewardAddress\<close>.
\<close>

definition watch ::
  "(StakingType \<Rightarrow> StakingHash \<Rightarrow> RewardAddress) \<Rightarrow> StakingHash \<Rightarrow> StakingType \<Rightarrow>
   staking \<Rightarrow> staking \<times> effect list" where
  "watch credentialToRewardAddress h ty s =
     (let addr = credentialToRewardAddress ty h in
      (s\<lparr>registry := jsmap_set h addr (registry s),
         revRegistry := jsmap_set addr h (revRegistry s)\<rparr>,
       [Console_log (Watched ty h addr)]))"

fun batchWatch_loop ::
  "(StakingType \<Rightarrow> StakingHash \<Rightarrow> RewardAddress) \<Rightarrow> StakingHash list \<Rightarrow> StakingType \<Rightarrow>
   staking \<Rightarrow> staking" where
  "batchWatch_loop credentialToRewardAddress [] ty s = s"
| "batchWatch_loop credentialToRewardAddress (h # hs) ty s =
     (let addr = credentialToRewardAddress ty h in
      batchWatch_loop credentialToRewardAddress hs ty
        (s\<lparr>registry := jsmap_set h addr (registry s),
           revRegistry := jsmap_set addr h (revRegistry s)\<rparr>))"

definition batchWatch ::
  "(StakingType \<Rightarrow> StakingHash \<Rightarrow> RewardAddress) \<Rightarrow> StakingHash list \<Rightarrow> StakingType \<Rightarrow>
   staking \<Rightarrow> staking \<times> effect list" where
  "batchWatch credentialToRewardAddress hs ty s =
     (batchWatch_loop credentialToRewardAddress hs ty s,
      [Console_log (Watched_batch (length hs) ty)])"

definition unwatch :: "StakingHash \<Rightarrow> staking \<Rightarrow> bool \<times> staking \<times> effect list" where
  "unwatch h s =
     (if jsmap_has h (registry s)
      then (True, s\<lparr>toRemove := jsset_add h (toRemove s)\<rparr>, [Console_log (Unwatched h)])
      else (False, s, [Console_warn (Not_Found h)]))"

definition fromHash :: "staking \<Rightarrow> StakingHash \<Rightarrow> RewardAddress option" where
  "fromHash s h = jsmap_get h (registry s)"

definition fromAddress :: "staking \<Rightarrow> RewardAddress \<Rightarrow> StakingHash option" where
  "fromAddress s a = jsmap_get a (revRegistry s)"

definition isHashWatched :: "staking \<Rightarrow> StakingHash \<Rightarrow> bool" where
  "isHashWatched s h = jsmap_has h (registry s)"

definition isAddressWatched :: "staking \<Rightarrow> RewardAddress \<Rightarrow> bool" where
  "isAddressWatched s a = jsmap_has a (revRegistry s)"

definition toggleReloadDynamically :: "bool \<Rightarrow> staking \<Rightarrow> staking" where
  "toggleReloadDynamically b s = s\<lparr>willReloadDynamically := b\<rparr>"

text \<open>
  \<^verbatim>\<open>clear\<close> pauses the reload queue, waits until it has drained, resets the closure state
  and resumes the queue. The model is the run in which the queue does drain.
\<close>

definition clear :: "staking \<Rightarrow> staking \<times> effect list" where
  "clear s =
     (s\<lparr>registry := [], revRegistry := [], toReload := [], toRemove := [],
        fullReload := False\<rparr>,
      [Queue_pause, Queue_drained, Queue_resume, Console_log Clear])"

section \<open>Recovery\<close>

text \<open>
  The table \<^verbatim>\<open>chain.staking\<close> is the list of its rows in insertion order; the identity
  column \<^verbatim>\<open>id\<close> grows with every insert, so a row's \<^verbatim>\<open>id\<close> is its position.
\<close>

definition with_ids :: "ChainStaking list \<Rightarrow> (nat \<times> ChainStaking) list" where
  "with_ids tbl = zip [0..<length tbl] tbl"

text \<open>
  The query of \<^verbatim>\<open>reboot\<close>, clause by clause. \<^verbatim>\<open>ORDER BY hash, id DESC\<close> sorts by the
  credential and then by descending \<^verbatim>\<open>id\<close>. \<^verbatim>\<open>DISTINCT ON (hash)\<close> keeps the first row of each
  set of rows with the same credential. The inner select computes
  \<^verbatim>\<open>action <> 'deregister' AS is_active\<close>, the outer one keeps the rows with \<^verbatim>\<open>is_active\<close> and
  projects the credential.
\<close>

definition order_by_hash_id_desc :: "(nat \<times> ChainStaking) list \<Rightarrow> (nat \<times> ChainStaking) list" where
  "order_by_hash_id_desc rows = sort_key (\<lambda>(i, r). (hash r, - int i)) rows"

fun distinct_on_hash :: "(nat \<times> ChainStaking) list \<Rightarrow> (nat \<times> ChainStaking) list" where
  "distinct_on_hash [] = []"
| "distinct_on_hash (r # rs) =
     r # distinct_on_hash (filter (\<lambda>q. hash (snd q) \<noteq> hash (snd r)) rs)"

definition select_active_hashes :: "ChainStaking list \<Rightarrow> StakingHash list" where
  "select_active_hashes tbl =
     map fst
       (filter snd
          (map (\<lambda>(i, r). (hash r, action r \<noteq> Deregister))
             (distinct_on_hash (order_by_hash_id_desc (with_ids tbl)))))"

text \<open>
  \<^verbatim>\<open>reboot\<close> calls \<^verbatim>\<open>this.clear()\<close> without awaiting it, and then awaits the query.
  \<^verbatim>\<open>clear\<close> runs up to its own \<^verbatim>\<open>await reloadQueue.drained()\<close> and continues only when the
  queue has drained, so how far it gets before the rows of the query arrive is not decided
  by \<^verbatim>\<open>reboot\<close>:
  \<^item> \<open>Clear_rejects\<close>: the component was never started, \<^verbatim>\<open>reloadQueue\<close> is undefined and
    \<^verbatim>\<open>clear\<close> throws at \<^verbatim>\<open>reloadQueue.pause()\<close>; its promise rejects unobserved and nothing is
    reset;
  \<^item> \<open>Drained_before_rows\<close>: the queue drains first, as it always does when it is idle, and
    the reset runs while the query is under way;
  \<^item> \<open>Drained_after_rows\<close>: a reload execution is in flight and ends after the rows have
    arrived; \<^verbatim>\<open>batchWatch\<close> runs on the state as it is, and the reset is still pending when
    \<^verbatim>\<open>reboot\<close> returns.
  \<open>clear_resumed\<close> is the part of \<^verbatim>\<open>clear\<close> after its \<^verbatim>\<open>await\<close>.
\<close>

datatype clear_progress = Clear_rejects | Drained_before_rows | Drained_after_rows

definition clear_resumed :: "staking \<Rightarrow> staking \<times> effect list" where
  "clear_resumed s =
     (s\<lparr>registry := [], revRegistry := [], toReload := [], toRemove := [],
        fullReload := False\<rparr>,
      [Queue_drained, Queue_resume, Console_log Clear])"

definition reboot ::
  "(StakingType \<Rightarrow> StakingHash \<Rightarrow> RewardAddress) \<Rightarrow> ChainStaking list \<Rightarrow> clear_progress \<Rightarrow>
   staking \<Rightarrow> staking \<times> effect list" where
  "reboot credentialToRewardAddress tbl progress s =
     (case progress of
        Clear_rejects \<Rightarrow>
          (case batchWatch credentialToRewardAddress (select_active_hashes tbl) Script s of
             (s1, out1) \<Rightarrow> (s1, [Select_active_hashes] @ out1 @ [Console_log Reboot]))
      | Drained_before_rows \<Rightarrow>
          (case clear_resumed s of
             (s1, out1) \<Rightarrow>
               (case batchWatch credentialToRewardAddress (select_active_hashes tbl) Script s1 of
                  (s2, out2) \<Rightarrow>
                    (s2, [Queue_pause, Select_active_hashes] @ out1 @ out2 @ [Console_log Reboot])))
      | Drained_after_rows \<Rightarrow>
          (case batchWatch credentialToRewardAddress (select_active_hashes tbl) Script s of
             (s1, out1) \<Rightarrow> (s1, [Queue_pause, Select_active_hashes] @ out1 @ [Console_log Reboot])))"

text \<open>
  The most recent logged action of a credential as the specification words it: the action
  of the last row, in insertion order, that carries the credential.
\<close>

definition spec_latest_action ::
  "ChainStaking list \<Rightarrow> StakingHash \<Rightarrow> ChainStakingActionWithPayload option" where
  "spec_latest_action tbl h =
     (case filter (\<lambda>r. hash r = h) tbl of [] \<Rightarrow> None | r # rs \<Rightarrow> Some (action (last (r # rs))))"

section \<open>The reload executor\<close>

text \<open>
  \<^verbatim>\<open>doReload\<close> suspends at its \<^verbatim>\<open>await\<close>s, so it is modelled in the three pieces between
  them. \<open>doReload_begin\<close> is the synchronous part up to the fetch: the guard on
  \<^verbatim>\<open>isActive\<close> and the snapshot of the pending work into \<^verbatim>\<open>batch\<close> (\<open>None\<close> for
  \<^verbatim>\<open>undefined\<close>).
\<close>

fun selectBatch ::
  "(StakingHash \<times> RewardAddress) list \<Rightarrow> StakingHash list \<Rightarrow> RewardAddress list \<Rightarrow>
   effect list \<Rightarrow> RewardAddress list \<times> effect list" where
  "selectBatch reg [] batch out = (batch, out)"
| "selectBatch reg (h # hs) batch out =
     (case jsmap_get h reg of
        None \<Rightarrow> selectBatch reg hs batch (out @ [Console_warn (Address_to_not_found h)])
      | Some addr \<Rightarrow>
          if addr \<noteq> [] then selectBatch reg hs (batch @ [addr]) out
          else selectBatch reg hs batch (out @ [Console_warn (Address_to_not_found h)]))"

definition doReload_begin ::
  "staking \<Rightarrow> staking \<times> RewardAddress list option \<times> effect list" where
  "doReload_begin s =
     (if \<not> isActive s then
        (s\<lparr>toReload := (if toReload s \<noteq> [] then [] else toReload s)\<rparr>,
         None,
         [Console_warn
            (Inactive_Ignored_Reload (if fullReload s then None else Some (toReload s)))])
      else if fullReload s then
        (s\<lparr>fullReload := False,
           toReload := (if toReload s \<noteq> [] then [] else toReload s)\<rparr>,
         Some (jsmap_values (registry s)),
         [Console_log Reloading_All])
      else if toReload s \<noteq> [] then
        (let (batch, warns) = selectBatch (registry s) (toReload s) [] []
         in (s\<lparr>toReload := []\<rparr>, Some batch,
             Console_log (Reloading (length (toReload s))) # warns))
      else (s, None, []))"

text \<open>
  \<open>doReload_merge\<close> is the loop over \<^verbatim>\<open>Object.entries(response)\<close>, run when the tip and
  the response have arrived. The response is keyed by credential; \<^verbatim>\<open>slotFrom\<close> comes from a
  module outside the source and is a parameter.
\<close>

fun doReload_merge ::
  "(Tip \<Rightarrow> Slot) \<Rightarrow> Tip \<Rightarrow> (StakingHash \<times> DelegationsAndRewards) list \<Rightarrow> staking \<Rightarrow>
   ChainStakingState list \<Rightarrow> effect list \<Rightarrow>
   staking \<times> ChainStakingState list \<times> effect list" where
  "doReload_merge slotFrom tip [] s stakingStates out = (s, stakingStates, out)"
| "doReload_merge slotFrom tip ((h, entry) # rest) s stakingStates out =
     (let addr = (case jsmap_get h (registry s) of None \<Rightarrow> [] | Some a \<Rightarrow> a);
          out1 = (if addr = [] then out @ [Console_warn (Address_from_not_found h)] else out);
          row = \<lparr>state_hash = h, address = addr, poolId = delegate entry,
                 rewards = (case entry_rewards entry of None \<Rightarrow> 0 | Some r \<Rightarrow> r),
                 reloadedSlot = slotFrom tip\<rparr>
      in if jsset_has h (toRemove s)
         then doReload_merge slotFrom tip rest
                (s\<lparr>registry := jsmap_delete h (registry s),
                   revRegistry := jsmap_delete addr (revRegistry s)\<rparr>)
                (stakingStates @ [row]) (out1 @ [Console_log (Removed h addr)])
         else doReload_merge slotFrom tip rest s (stakingStates @ [row]) out1)"

text \<open>
  \<open>doReload_finish\<close> is what follows the loop: the upsert when there are rows, the console
  line and the callback when one was supplied. The callback's \<^verbatim>\<open>fullReload\<close> property is
  the shorthand for the closure variable, read when the callback is called.
\<close>

definition doReload_finish ::
  "bool \<Rightarrow> Tip \<Rightarrow> RewardAddress list \<Rightarrow> ChainStakingState list \<Rightarrow> staking \<Rightarrow> effect list" where
  "doReload_finish onReloaded tip batch stakingStates s =
     (if stakingStates \<noteq> [] then [Upsert_staking_state stakingStates] else []) @
     [Console_log (Reloaded (length batch) tip)] @
     (if onReloaded then [OnReloaded batch (fullReload s)] else [])"

text \<open>
  A whole execution with nothing interleaved at the \<^verbatim>\<open>await\<close>s. The state source is the
  pair of \<open>tip\<close> and the function \<open>delegationsAndRewards\<close> from the batch to the response;
  \<open>onReloaded\<close> says whether the caller supplied the callback.
\<close>

definition doReload ::
  "(Tip \<Rightarrow> Slot) \<Rightarrow> bool \<Rightarrow> Tip \<Rightarrow>
   (RewardAddress list \<Rightarrow> (StakingHash \<times> DelegationsAndRewards) list) \<Rightarrow>
   staking \<Rightarrow> staking \<times> effect list" where
  "doReload slotFrom onReloaded tip delegationsAndRewards s =
     (case doReload_begin s of
        (s1, None, out1) \<Rightarrow> (s1, out1)
      | (s1, Some batch, out1) \<Rightarrow>
          if batch = [] then (s1, out1)
          else
            (case doReload_merge slotFrom tip (delegationsAndRewards batch) s1 [] [] of
               (s2, stakingStates, out2) \<Rightarrow>
                 (s2,
                  out1 @ [LedgerTip, DelegationsAndRewards batch] @ out2 @
                  doReload_finish onReloaded tip batch stakingStates s2)))"

text \<open>\<^verbatim>\<open>start\<close> and \<^verbatim>\<open>stop\<close>, as far as the closure state goes.\<close>

definition start :: "staking \<Rightarrow> staking" where
  "start s = s\<lparr>isActive := True\<rparr>"

definition stop :: "staking \<Rightarrow> staking" where
  "stop s = (if isActive s then s\<lparr>isActive := False\<rparr> else s)"

text \<open>
  A stand-in for the external address derivation in the concrete runs below: the
  hexadecimal form of a main-network reward address, a header byte that tells a key
  credential from a script credential, followed by the credential.
\<close>

definition rewardAddressHex :: "StakingType \<Rightarrow> StakingHash \<Rightarrow> RewardAddress" where
  "rewardAddressHex ty h = (case ty of Key \<Rightarrow> ''e1'' | Script \<Rightarrow> ''f1'') @ h"

definition slotOf :: "Tip \<Rightarrow> Slot" where
  "slotOf tip = (case tip of Origin \<Rightarrow> 0 | Point sl _ \<Rightarrow> sl)"

section \<open>The block handler\<close>

text \<open>
  The parts of a block that \<^verbatim>\<open>afterBlock\<close> reads. The withdrawals of a transaction are an
  object keyed by reward address, here the list of its entries in the order \<^verbatim>\<open>for ... in\<close>
  visits them. A certificate is one of the three staking certificates or any other.
\<close>

datatype Certificate =
    StakeKeyRegistration StakingHash
  | StakeDelegation StakingHash PoolId
  | StakeKeyDeregistration StakingHash
  | OtherCertificate

record Tx =
  tx_id :: TxHash
  withdrawals :: "(RewardAddress \<times> Lovelace) list"
  certificates :: "Certificate list"

record Block =
  header_slot :: Slot
  body :: "Tx list"

text \<open>The loop over the withdrawals: \<^verbatim>\<open>hash && events.push(...)\<close>.\<close>

fun withdrawals_loop ::
  "staking \<Rightarrow> Slot \<Rightarrow> TxHash \<Rightarrow> (RewardAddress \<times> Lovelace) list \<Rightarrow> ChainStaking list \<Rightarrow>
   ChainStaking list" where
  "withdrawals_loop st sl txid [] events = events"
| "withdrawals_loop st sl txid ((addr, amount) # ws) events =
     (case fromAddress st addr of
        None \<Rightarrow> withdrawals_loop st sl txid ws events
      | Some h \<Rightarrow>
          if h \<noteq> []
          then withdrawals_loop st sl txid ws
                 (events @ [\<lparr>hash = h, slot = sl, txId = txid, action = Withdraw amount\<rparr>])
          else withdrawals_loop st sl txid ws events)"

text \<open>
  The loop over the certificates. \<open>Call_unwatch\<close> records the call of \<^verbatim>\<open>staking.unwatch\<close>; what
  the call prints follows it.
\<close>

fun certificates_loop ::
  "Slot \<Rightarrow> TxHash \<Rightarrow> Certificate list \<Rightarrow> staking \<Rightarrow> ChainStaking list \<Rightarrow> effect list \<Rightarrow>
   staking \<times> ChainStaking list \<times> effect list" where
  "certificates_loop sl txid [] st events out = (st, events, out)"
| "certificates_loop sl txid (StakeKeyRegistration h # certs) st events out =
     (if isHashWatched st h
      then certificates_loop sl txid certs st
             (events @ [\<lparr>hash = h, slot = sl, txId = txid, action = Register\<rparr>]) out
      else certificates_loop sl txid certs st events out)"
| "certificates_loop sl txid (StakeDelegation h pool # certs) st events out =
     (if isHashWatched st h
      then certificates_loop sl txid certs st
             (events @ [\<lparr>hash = h, slot = sl, txId = txid, action = Delegate pool\<rparr>]) out
      else certificates_loop sl txid certs st events out)"
| "certificates_loop sl txid (StakeKeyDeregistration h # certs) st events out =
     (if isHashWatched st h
      then (case unwatch h st of
              (known, st', printed) \<Rightarrow>
                certificates_loop sl txid certs st'
                  (events @ [\<lparr>hash = h, slot = sl, txId = txid, action = Deregister\<rparr>])
                  (out @ Call_unwatch h # printed))
      else certificates_loop sl txid certs st events out)"
| "certificates_loop sl txid (OtherCertificate # certs) st events out =
     certificates_loop sl txid certs st events out"

fun transactions_loop ::
  "Slot \<Rightarrow> Tx list \<Rightarrow> staking \<Rightarrow> ChainStaking list \<Rightarrow> effect list \<Rightarrow>
   staking \<times> ChainStaking list \<times> effect list" where
  "transactions_loop sl [] st events out = (st, events, out)"
| "transactions_loop sl (tx # txs) st events out =
     (case certificates_loop sl (tx_id tx) (certificates tx) st
             (withdrawals_loop st sl (tx_id tx) (withdrawals tx) events) out of
        (st', events', out') \<Rightarrow> transactions_loop sl txs st' events' out')"

text \<open>
  \<^verbatim>\<open>afterBlock\<close>; \<open>storeBlock\<close> says whether the framework supplied the hook. \<open>Call_reload\<close>
  records the call of \<^verbatim>\<open>staking.reload\<close>; what the call does follows it.
\<close>

definition afterBlock :: "bool \<Rightarrow> bool \<Rightarrow> Block \<Rightarrow> staking \<Rightarrow> staking \<times> effect list" where
  "afterBlock storeBlock inSync block st =
     (case transactions_loop (header_slot block) (body block) st [] [] of
        (st1, events, out1) \<Rightarrow>
          if events \<noteq> [] then
            (let out2 = out1 @ (if storeBlock then [StoreBlock] else []) @ [Insert_staking events]
             in if inSync
                then (case reload (Some (map hash events)) st1 of
                        (st2, out3) \<Rightarrow> (st2, out2 @ Call_reload (Some (map hash events)) # out3))
                else (st1, out2))
          else (st1, out1))"

text \<open>The actions \<^verbatim>\<open>afterBlock\<close> collects from a block.\<close>

definition afterBlock_events :: "Block \<Rightarrow> staking \<Rightarrow> ChainStaking list" where
  "afterBlock_events block st =
     fst (snd (transactions_loop (header_slot block) (body block) st [] []))"

text \<open>
  The withdrawals loop in closed form: a withdraw action for each entry whose address the
  reverse map resolves to a credential that is not the empty string.
\<close>

definition withdraw_actions ::
  "staking \<Rightarrow> Slot \<Rightarrow> TxHash \<Rightarrow> (RewardAddress \<times> Lovelace) list \<Rightarrow> ChainStaking list" where
  "withdraw_actions st sl txid ws =
     concat (map (\<lambda>(addr, amount).
        case fromAddress st addr of
          Some h \<Rightarrow>
            if h \<noteq> [] then [\<lparr>hash = h, slot = sl, txId = txid, action = Withdraw amount\<rparr>]
            else []
        | None \<Rightarrow> []) ws)"

text \<open>What a run of \<^verbatim>\<open>unwatch\<close> calls on watched credentials leaves in the trace.\<close>

definition unwatch_trace :: "StakingHash list \<Rightarrow> effect list" where
  "unwatch_trace hs = concat (map (\<lambda>h. [Call_unwatch h, Console_log (Unwatched h)]) hs)"

subsection \<open>The extractor as the specification words it\<close>

text \<open>
  For each transaction, a withdraw action for each withdrawal entry whose address the
  registry resolves to a watched credential, that is, one present in the forward map; then,
  for each certificate, a register, delegate or deregister action when its credential is
  watched, and nothing otherwise.
\<close>

definition spec_withdraw_actions :: "staking \<Rightarrow> Slot \<Rightarrow> Tx \<Rightarrow> ChainStaking list" where
  "spec_withdraw_actions st sl tx =
     concat (map (\<lambda>(addr, amount).
        case fromAddress st addr of
          Some h \<Rightarrow>
            if isHashWatched st h
            then [\<lparr>hash = h, slot = sl, txId = tx_id tx, action = Withdraw amount\<rparr>]
            else []
        | None \<Rightarrow> []) (withdrawals tx))"

fun spec_certificate_actions ::
  "staking \<Rightarrow> Slot \<Rightarrow> TxHash \<Rightarrow> Certificate \<Rightarrow> ChainStaking list" where
  "spec_certificate_actions st sl txid (StakeKeyRegistration h) =
     (if isHashWatched st h then [\<lparr>hash = h, slot = sl, txId = txid, action = Register\<rparr>]
      else [])"
| "spec_certificate_actions st sl txid (StakeDelegation h pool) =
     (if isHashWatched st h then [\<lparr>hash = h, slot = sl, txId = txid, action = Delegate pool\<rparr>]
      else [])"
| "spec_certificate_actions st sl txid (StakeKeyDeregistration h) =
     (if isHashWatched st h then [\<lparr>hash = h, slot = sl, txId = txid, action = Deregister\<rparr>]
      else [])"
| "spec_certificate_actions st sl txid OtherCertificate = []"

definition spec_tx_actions :: "staking \<Rightarrow> Slot \<Rightarrow> Tx \<Rightarrow> ChainStaking list" where
  "spec_tx_actions st sl tx =
     spec_withdraw_actions st sl tx @
     concat (map (spec_certificate_actions st sl (tx_id tx)) (certificates tx))"

definition spec_block_actions :: "staking \<Rightarrow> Block \<Rightarrow> ChainStaking list" where
  "spec_block_actions st block = concat (map (spec_tx_actions st (header_slot block)) (body block))"

text \<open>The credentials to unwatch: those of the deregistration certificates for watched credentials.\<close>

fun spec_certificate_unwatch :: "staking \<Rightarrow> Certificate \<Rightarrow> StakingHash list" where
  "spec_certificate_unwatch st (StakeKeyDeregistration h) = (if isHashWatched st h then [h] else [])"
| "spec_certificate_unwatch st cert = []"

definition spec_block_unwatch :: "staking \<Rightarrow> Block \<Rightarrow> StakingHash list" where
  "spec_block_unwatch st block =
     concat (map (\<lambda>tx. concat (map (spec_certificate_unwatch st) (certificates tx))) (body block))"

text \<open>
  The extractor with the test the code makes on a withdrawal: the reverse map resolves the
  address to a credential that is not the empty string, in the forward map or not. The
  certificates are as above.
\<close>

definition resolved_block_actions :: "staking \<Rightarrow> Block \<Rightarrow> ChainStaking list" where
  "resolved_block_actions st block =
     concat (map (\<lambda>tx.
        withdraw_actions st (header_slot block) (tx_id tx) (withdrawals tx) @
        concat (map (spec_certificate_actions st (header_slot block) (tx_id tx)) (certificates tx)))
      (body block))"

text \<open>Every reverse entry of the registry resolves to a watched credential that is not empty.\<close>

definition reverse_entries_watched :: "staking \<Rightarrow> bool" where
  "reverse_entries_watched st =
     (\<forall>a h. fromAddress st a = Some h \<longrightarrow> h \<noteq> [] \<and> isHashWatched st h)"

section \<open>Sequences of calls\<close>

text \<open>Several \<^verbatim>\<open>reload\<close> calls in a row, as the timer, the block handler and the embedder make them.\<close>

fun reloads :: "StakingHash list option list \<Rightarrow> staking \<Rightarrow> staking \<times> effect list" where
  "reloads [] s = (s, [])"
| "reloads (hashes # calls) s =
     (case reload hashes s of (s1, out1) \<Rightarrow>
        (case reloads calls s1 of (s2, out2) \<Rightarrow> (s2, out1 @ out2)))"

text \<open>
  Calls of the registry operations in a row. A call sequence uses one kind per credential
  when no credential is watched under two different kinds in it.
\<close>

datatype registry_call =
    Watch StakingHash StakingType
  | BatchWatch "StakingHash list" StakingType
  | Unwatch StakingHash

fun apply_call ::
  "(StakingType \<Rightarrow> StakingHash \<Rightarrow> RewardAddress) \<Rightarrow> registry_call \<Rightarrow> staking \<Rightarrow> staking" where
  "apply_call credentialToRewardAddress (Watch h ty) s =
     fst (watch credentialToRewardAddress h ty s)"
| "apply_call credentialToRewardAddress (BatchWatch hs ty) s =
     fst (batchWatch credentialToRewardAddress hs ty s)"
| "apply_call credentialToRewardAddress (Unwatch h) s = fst (snd (unwatch h s))"

fun apply_calls ::
  "(StakingType \<Rightarrow> StakingHash \<Rightarrow> RewardAddress) \<Rightarrow> registry_call list \<Rightarrow> staking \<Rightarrow> staking" where
  "apply_calls credentialToRewardAddress [] s = s"
| "apply_calls credentialToRewardAddress (c # cs) s =
     apply_calls credentialToRewardAddress cs (apply_call credentialToRewardAddress c s)"

fun call_kinds :: "registry_call \<Rightarrow> (StakingHash \<times> StakingType) list" where
  "call_kinds (Watch h ty) = [(h, ty)]"
| "call_kinds (BatchWatch hs ty) = map (\<lambda>h. (h, ty)) hs"
| "call_kinds (Unwatch h) = []"

definition one_kind_per_credential :: "registry_call list \<Rightarrow> bool" where
  "one_kind_per_credential cs =
     (\<forall>p \<in> set (concat (map call_kinds cs)). \<forall>q \<in> set (concat (map call_kinds cs)).
        fst p = fst q \<longrightarrow> snd p = snd q)"

text \<open>What is assumed of the external derivation: different credentials have different addresses.\<close>

definition address_determines_credential ::
  "(StakingType \<Rightarrow> StakingHash \<Rightarrow> RewardAddress) \<Rightarrow> bool" where
  "address_determines_credential credentialToRewardAddress =
     (\<forall>ty ty' h h'. credentialToRewardAddress ty h = credentialToRewardAddress ty' h' \<longrightarrow> h = h')"

text \<open>
  The registry invariant: the reverse map is the exact inverse of the forward map, and
  neither list holds a key twice.
\<close>

definition registry_inverse :: "staking \<Rightarrow> bool" where
  "registry_inverse s =
     ((\<forall>h a. fromHash s h = Some a \<longleftrightarrow> fromAddress s a = Some h) \<and>
      distinct (map fst (registry s)) \<and> distinct (map fst (revRegistry s)))"

text \<open>The invariant of the proof: moreover every address is the one derived under the kind \<open>kf\<close> gives.\<close>

definition kinded_inverse ::
  "(StakingType \<Rightarrow> StakingHash \<Rightarrow> RewardAddress) \<Rightarrow> (StakingHash \<Rightarrow> StakingType) \<Rightarrow>
   staking \<Rightarrow> bool" where
  "kinded_inverse credentialToRewardAddress kf s =
     (registry_inverse s \<and>
      (\<forall>h a. fromHash s h = Some a \<longrightarrow> a = credentialToRewardAddress (kf h) h))"

section \<open>Example runs\<close>

text \<open>
  The states of the concrete runs used below, each reached from \<open>createStakingIndexer\<close> by
  calls of the public operations, with \<open>rewardAddressHex\<close> for the address derivation.
\<close>

definition run_watched :: staking where
  "run_watched = fst (watch rewardAddressHex ''c1'' Script (start createStakingIndexer))"

definition run_unwatched :: staking where
  "run_unwatched = fst (reload (Some [''c1'']) (fst (snd (unwatch ''c1'' run_watched))))"

definition run_rewatched :: staking where
  "run_rewatched =
     fst (reload (Some [''c1''])
       (fst (snd (unwatch ''c1''
         (fst (watch rewardAddressHex ''c1'' Script
           (fst (watch rewardAddressHex ''c1'' Key (start createStakingIndexer)))))))))"

definition answer_c1 :: "(StakingHash \<times> DelegationsAndRewards) list" where
  "answer_c1 = [(''c1'', \<lparr>delegate = Some ''pool1'', entry_rewards = Some 5\<rparr>)]"

text \<open>
  The state after \<^verbatim>\<open>c1\<close>, watched under both kinds and unwatched, has been reloaded; the
  state of a started component with \<^verbatim>\<open>c1\<close> watched while a full reload is in flight, its
  snapshot taken and its fetch awaited; and a log with register, delegate and withdraw for
  \<^verbatim>\<open>x\<close> and register and deregister for \<^verbatim>\<open>y\<close>.
\<close>

definition run_stale :: staking where
  "run_stale = fst (doReload slotOf False Origin (\<lambda>batch. answer_c1) run_rewatched)"

definition run_in_flight :: staking where
  "run_in_flight = fst (doReload_begin (fst (reload None run_watched)))"

definition log_xy :: "ChainStaking list" where
  "log_xy =
     [\<lparr>hash = ''x'', slot = 10, txId = ''t1'', action = Register\<rparr>,
      \<lparr>hash = ''y'', slot = 10, txId = ''t2'', action = Register\<rparr>,
      \<lparr>hash = ''x'', slot = 20, txId = ''t3'', action = Delegate ''pool1''\<rparr>,
      \<lparr>hash = ''y'', slot = 30, txId = ''t4'', action = Deregister\<rparr>,
      \<lparr>hash = ''x'', slot = 40, txId = ''t5'', action = Withdraw 7\<rparr>]"

section \<open>Properties\<close>

subsection \<open>Clearing\<close>

text \<open>
  Claim C10. After \<^verbatim>\<open>clear()\<close> both registry maps are empty (no credential and no address
  is watched), the selective-reload set and the removal set are empty and the full-reload
  flag is false, whatever the state before; the only effects of \<^verbatim>\<open>clear\<close> are on the
  reload queue and the console, so nothing is written to the action log or to the
  materialized state table.
\<close>

theorem clear_resets_state:
  "registry (fst (clear s)) = [] \<and> revRegistry (fst (clear s)) = [] \<and>
   \<not> isHashWatched (fst (clear s)) h \<and> \<not> isAddressWatched (fst (clear s)) a \<and>
   fromHash (fst (clear s)) h = None \<and> fromAddress (fst (clear s)) a = None \<and>
   toReload (fst (clear s)) = [] \<and> toRemove (fst (clear s)) = [] \<and>
   \<not> fullReload (fst (clear s)) \<and>
   snd (clear s) = [Queue_pause, Queue_drained, Queue_resume, Console_log Clear] \<and>
   Insert_staking evs \<notin> set (snd (clear s)) \<and>
   Upsert_staking_state rows \<notin> set (snd (clear s))"
  by (simp add: clear_def isHashWatched_def isAddressWatched_def fromHash_def
      fromAddress_def jsmap_has_def jsmap_get_def)

subsection \<open>The reload executor\<close>

lemma doReload_merge_fullReload:
  "fullReload (fst (doReload_merge slotFrom tip response s rows out)) = fullReload s"
  by (induction slotFrom tip response s rows out rule: doReload_merge.induct)
     (simp_all add: Let_def)

lemma doReload_merge_toRemove:
  "toRemove (fst (doReload_merge slotFrom tip response s rows out)) = toRemove s"
  by (induction slotFrom tip response s rows out rule: doReload_merge.induct)
     (simp_all add: Let_def)

lemma doReload_merge_toReload:
  "toReload (fst (doReload_merge slotFrom tip response s rows out)) = toReload s"
  by (induction slotFrom tip response s rows out rule: doReload_merge.induct)
     (simp_all add: Let_def)

text \<open>
  What the guard on \<^verbatim>\<open>isActive\<close> does in general: one warning, no fetch and no write, the
  selective set emptied, and the full-reload flag left as it was.
\<close>

lemma doReload_inactive:
  assumes "\<not> isActive s"
  shows "doReload slotFrom onReloaded tip delegationsAndRewards s =
         (s\<lparr>toReload := []\<rparr>,
          [Console_warn
             (Inactive_Ignored_Reload (if fullReload s then None else Some (toReload s)))])"
  using assms by (simp add: doReload_def doReload_begin_def)

text \<open>
  Claim C4. A reload execution that starts while the component is stopped should discard
  all pending work, the full-reload flag included. Here the component is started, receives
  \<^verbatim>\<open>reload(["c1"])\<close> and \<^verbatim>\<open>reload(null)\<close>, and is stopped; the execution that follows
  prints its warning, fetches and writes nothing and empties the selective set, but the
  full-reload flag is still true when it returns.
\<close>

theorem doReload_inactive_keeps_fullReload:
  "doReload slotOf onReloaded tip delegationsAndRewards
     (stop (fst (reload None (fst (reload (Some [''c1'']) (start createStakingIndexer)))))) =
   (\<lparr>toReload = [], toRemove = [], registry = [], revRegistry = [],
     fullReload = True, willReloadDynamically = False, isActive = False\<rparr>,
    [Console_warn (Inactive_Ignored_Reload None)])"
  by (simp add: doReload_def doReload_begin_def reload_def stop_def start_def
      createStakingIndexer_def jsset_add_def)

text \<open>
  With nothing interleaved at the \<^verbatim>\<open>await\<close>s, no execution tells its callback that it
  was a full reload: the flag is read after the snapshot has reset it.
\<close>

lemma doReload_begin_active_fullReload:
  "isActive s \<Longrightarrow> \<not> fullReload (fst (doReload_begin s))"
  by (simp add: doReload_begin_def split: prod.splits)

lemma doReload_merge_no_callback:
  "OnReloaded b f \<notin> set out \<Longrightarrow>
   OnReloaded b f \<notin> set (snd (snd (doReload_merge slotFrom tip response s rows out)))"
  by (induction slotFrom tip response s rows out rule: doReload_merge.induct)
     (simp_all add: Let_def)

lemma doReload_begin_no_callback:
  "OnReloaded b f \<notin> set (snd (snd (doReload_begin s)))"
proof -
  have sel: "OnReloaded b f \<notin> set (snd (selectBatch reg hs batch out))"
    if "OnReloaded b f \<notin> set out" for reg hs batch out
    using that
    by (induction reg hs batch out rule: selectBatch.induct) (simp_all split: option.splits)
  have "OnReloaded b f \<notin> set (snd (selectBatch (registry s) (toReload s) [] []))"
    by (rule sel) simp
  then show ?thesis
    by (auto simp: doReload_begin_def split: prod.splits)
qed

lemma doReload_never_reports_full:
  "OnReloaded b True \<notin> set (snd (doReload slotFrom onReloaded tip delegationsAndRewards s))"
proof (cases "isActive s")
  case False
  then show ?thesis by (simp add: doReload_inactive)
next
  case True
  obtain s1 batch out1 where b: "doReload_begin s = (s1, batch, out1)"
    by (cases "doReload_begin s") auto
  have f1: "\<not> fullReload s1"
    using doReload_begin_active_fullReload [OF True] b by simp
  have o1: "OnReloaded b True \<notin> set out1"
    using doReload_begin_no_callback [of b True s] b by simp
  show ?thesis
  proof (cases batch)
    case None
    with b o1 show ?thesis by (simp add: doReload_def)
  next
    case (Some bs)
    obtain s2 rows out2 where
      m: "doReload_merge slotFrom tip (delegationsAndRewards bs) s1 [] [] = (s2, rows, out2)"
      by (cases "doReload_merge slotFrom tip (delegationsAndRewards bs) s1 [] []") auto
    have f2: "\<not> fullReload s2"
      using doReload_merge_fullReload [of slotFrom tip "delegationsAndRewards bs" s1 "[]" "[]"]
        m f1 by simp
    have o2: "OnReloaded b True \<notin> set out2"
      using doReload_merge_no_callback
        [of b True "[]" slotFrom tip "delegationsAndRewards bs" s1 "[]"] m by simp
    from b Some m f2 o1 o2 show ?thesis
      by (simp add: doReload_def doReload_finish_def)
  qed
qed

text \<open>
  Claim C3. A reload execution with a non-empty batch should call \<^verbatim>\<open>onReloaded\<close> once,
  after the upsert, with the reloaded addresses and a boolean that is true exactly when
  the execution was a full reload. Here one script credential is watched and
  \<^verbatim>\<open>reload(null)\<close> has set the full-reload flag; the execution fetches the whole registry,
  upserts the row and calls the callback once with the batch, but with \<^verbatim>\<open>false\<close>.
\<close>

theorem doReload_full_reports_false:
  "doReload slotOf True (Point 1000 ''b'')
     (\<lambda>batch. [(''c1'', \<lparr>delegate = Some ''pool1'', entry_rewards = Some 5\<rparr>)])
     (fst (reload None
        (fst (watch rewardAddressHex ''c1'' Script (start createStakingIndexer))))) =
   (\<lparr>toReload = [], toRemove = [], registry = [(''c1'', ''f1c1'')],
     revRegistry = [(''f1c1'', ''c1'')], fullReload = False,
     willReloadDynamically = False, isActive = True\<rparr>,
    [Console_log Reloading_All, LedgerTip, DelegationsAndRewards [''f1c1''],
     Upsert_staking_state
       [\<lparr>state_hash = ''c1'', address = ''f1c1'', poolId = Some ''pool1'',
         rewards = 5, reloadedSlot = 1000\<rparr>],
     Console_log (Reloaded 1 (Point 1000 ''b'')),
     OnReloaded [''f1c1''] False])"
  by (simp add: doReload_def doReload_begin_def reload_def watch_def start_def
      createStakingIndexer_def rewardAddressHex_def jsmap_values_def jsmap_get_def
      jsset_has_def doReload_finish_def slotOf_def Let_def)

subsection \<open>Absorption by the full-reload flag\<close>

lemma reload_absorbed: "fullReload s \<Longrightarrow> reload hashes s = (s, [])"
  by (simp add: reload_def)

lemma reloads_absorbed: "fullReload s \<Longrightarrow> reloads calls s = (s, [])"
  by (induction calls) (simp_all add: reload_absorbed)

lemma reload_None_sets_flag: "fullReload (fst (reload None s))"
  by (simp add: reload_def)

lemma reload_registry: "registry (fst (reload hashes s)) = registry s"
  by (simp add: reload_def split: option.splits)

lemma reload_isActive: "isActive (fst (reload hashes s)) = isActive s"
  by (simp add: reload_def split: option.splits)

lemma doReload_begin_full:
  "isActive s \<Longrightarrow> fullReload s \<Longrightarrow>
   doReload_begin s =
     (s\<lparr>fullReload := False, toReload := []\<rparr>, Some (jsmap_values (registry s)),
      [Console_log Reloading_All])"
  by (simp add: doReload_begin_def)

text \<open>
  Claim C6. Once the full-reload flag is set, a \<^verbatim>\<open>reload\<close> call, with \<^verbatim>\<open>null\<close> or with a
  list of credentials, and any sequence of such calls, changes nothing and schedules
  nothing. The next execution of an active component then takes as its batch every address
  in the registry, and fetches exactly that batch when it is not empty. In particular
  after \<^verbatim>\<open>reload(null)\<close> and \<^verbatim>\<open>reload([c])\<close> the state is the one \<^verbatim>\<open>reload(null)\<close> left and
  the next batch is the whole registry.
\<close>

theorem full_reload_absorbs:
  "(fullReload s \<longrightarrow> reload hashes s = (s, []) \<and> reloads calls s = (s, [])) \<and>
   (fullReload s \<and> isActive s \<longrightarrow>
      fst (snd (doReload_begin s)) = Some (map snd (registry s)) \<and>
      (registry s \<noteq> [] \<longrightarrow>
         take 3 (snd (doReload slotFrom onReloaded tip delegationsAndRewards s)) =
           [Console_log Reloading_All, LedgerTip,
            DelegationsAndRewards (map snd (registry s))])) \<and>
   fst (reload (Some [c]) (fst (reload None s))) = fst (reload None s) \<and>
   (isActive s \<longrightarrow>
      fst (snd (doReload_begin (fst (reload (Some [c]) (fst (reload None s)))))) =
        Some (map snd (registry s)))"
proof -
  have a: "fullReload s \<longrightarrow> reload hashes s = (s, []) \<and> reloads calls s = (s, [])"
    by (simp add: reload_absorbed reloads_absorbed)
  have b: "fullReload s \<and> isActive s \<longrightarrow>
      fst (snd (doReload_begin s)) = Some (map snd (registry s)) \<and>
      (registry s \<noteq> [] \<longrightarrow>
         take 3 (snd (doReload slotFrom onReloaded tip delegationsAndRewards s)) =
           [Console_log Reloading_All, LedgerTip,
            DelegationsAndRewards (map snd (registry s))])"
    by (simp add: doReload_begin_full doReload_def jsmap_values_def split: prod.splits)
  have c: "fst (reload (Some [c]) (fst (reload None s))) = fst (reload None s)"
    by (simp add: reload_absorbed [OF reload_None_sets_flag])
  have d: "isActive s \<longrightarrow>
      fst (snd (doReload_begin (fst (reload (Some [c]) (fst (reload None s)))))) =
        Some (map snd (registry s))"
    unfolding c
    by (simp add: doReload_begin_full reload_None_sets_flag reload_isActive reload_registry
        jsmap_values_def)
  from a b c d show ?thesis by blast
qed

theorem full_reload_absorbs_witness:
  "reload (Some [''c2''])
     (fst (reload None (fst (watch rewardAddressHex ''c1'' Script (start createStakingIndexer))))) =
   (fst (reload None (fst (watch rewardAddressHex ''c1'' Script (start createStakingIndexer)))), []) \<and>
   fst (snd (doReload_begin
     (fst (reload None (fst (watch rewardAddressHex ''c1'' Script (start createStakingIndexer))))))) =
   Some [''f1c1''] \<and>
   take 3 (snd (doReload slotOf True Origin (\<lambda>batch. [])
     (fst (reload None (fst (watch rewardAddressHex ''c1'' Script (start createStakingIndexer))))))) =
   [Console_log Reloading_All, LedgerTip, DelegationsAndRewards [''f1c1'']]"
  using full_reload_absorbs
    [of "fst (reload None (fst (watch rewardAddressHex ''c1'' Script (start createStakingIndexer))))"
        "Some [''c2'']" "[]" slotOf True Origin "\<lambda>batch. []" "''c2''"]
  by (simp add: reload_def watch_def start_def createStakingIndexer_def rewardAddressHex_def
      Let_def)

subsection \<open>The two maps as finite maps\<close>

lemma map_of_jsmap_set: "map_of (jsmap_set k v m) = (map_of m)(k \<mapsto> v)"
  by (induction m) (auto simp: fun_eq_iff)

lemma map_of_jsmap_delete: "map_of (jsmap_delete k m) = (map_of m)(k := None)"
  by (induction m) (auto simp: jsmap_delete_def fun_eq_iff)

lemma fold_jsset_add_set: "set (fold jsset_add hs xs) = set xs \<union> set hs"
  by (induction hs arbitrary: xs) (auto simp: jsset_add_def)

subsection \<open>The merge loop\<close>

text \<open>The state the loop ends in does not depend on the rows and lines collected so far.\<close>

lemma doReload_merge_state_accumulators:
  "fst (doReload_merge slotFrom tip response s rows out) =
   fst (doReload_merge slotFrom' tip' response s rows' out')"
proof (induction response arbitrary: s rows out rows' out')
  case Nil
  show ?case by simp
next
  case (Cons p rest)
  obtain h entry where p: "p = (h, entry)" by (cases p)
  show ?case
    unfolding p by (simp add: Let_def) (intro conjI impI Cons.IH)
qed

lemma doReload_merge_step:
  "fst (doReload_merge slotFrom tip ((h, entry) # rest) s rows out) =
   fst (doReload_merge slotFrom tip rest
     (if h \<in> set (toRemove s)
      then s\<lparr>registry := jsmap_delete h (registry s),
             revRegistry :=
               jsmap_delete (case map_of (registry s) h of None \<Rightarrow> [] | Some a \<Rightarrow> a)
                 (revRegistry s)\<rparr>
      else s) [] [])"
  by (simp add: Let_def jsset_has_def jsmap_get_def)
     (intro conjI impI doReload_merge_state_accumulators)

text \<open>The forward map after the loop: exactly the answered credentials marked for removal are gone.\<close>

lemma doReload_merge_registry:
  "map_of (registry (fst (doReload_merge slotFrom tip response s rows out))) h =
     (if h \<in> fst ` set response \<and> h \<in> set (toRemove s) then None
      else map_of (registry s) h)"
proof (induction response arbitrary: s rows out)
  case Nil
  show ?case by simp
next
  case (Cons p rest)
  obtain h' entry where p: "p = (h', entry)" by (cases p)
  show ?case
    unfolding p doReload_merge_step by (auto simp: Cons.IH map_of_jsmap_delete)
qed

text \<open>The loop adds nothing to the reverse map.\<close>

lemma doReload_merge_revRegistry_sub:
  "map_of (revRegistry (fst (doReload_merge slotFrom tip response s rows out))) a = Some h \<Longrightarrow>
   map_of (revRegistry s) a = Some h"
proof (induction response arbitrary: s rows out)
  case Nil
  then show ?case by simp
next
  case (Cons p rest)
  obtain h' entry where p: "p = (h', entry)" by (cases p)
  from Cons.prems have "map_of (revRegistry (if h' \<in> set (toRemove s)
      then s\<lparr>registry := jsmap_delete h' (registry s),
             revRegistry :=
               jsmap_delete (case map_of (registry s) h' of None \<Rightarrow> [] | Some a \<Rightarrow> a)
                 (revRegistry s)\<rparr>
      else s)) a = Some h"
    unfolding p doReload_merge_step by (rule Cons.IH)
  then show ?case
    by (simp add: map_of_jsmap_delete split: if_splits)
qed

text \<open>The address the forward map holds for a finalized credential leaves the reverse map.\<close>

lemma doReload_merge_revRegistry_removed:
  "c \<in> fst ` set response \<Longrightarrow> c \<in> set (toRemove s) \<Longrightarrow> map_of (registry s) c = Some a \<Longrightarrow>
   map_of (revRegistry (fst (doReload_merge slotFrom tip response s rows out))) a = None"
proof (induction response arbitrary: s rows out)
  case Nil
  then show ?case by simp
next
  case (Cons p rest)
  obtain h' entry where p: "p = (h', entry)" by (cases p)
  show ?case
  proof (cases "h' = c")
    case True
    have "map_of (revRegistry (fst (doReload_merge slotFrom tip (p # rest) s rows out))) a
          \<noteq> Some x" for x
    proof
      assume "map_of (revRegistry (fst (doReload_merge slotFrom tip (p # rest) s rows out))) a
              = Some x"
      then have "map_of (revRegistry (s\<lparr>registry := jsmap_delete c (registry s),
             revRegistry := jsmap_delete a (revRegistry s)\<rparr>)) a = Some x"
        unfolding p doReload_merge_step using True Cons.prems
        by (auto dest: doReload_merge_revRegistry_sub)
      then show False by (simp add: map_of_jsmap_delete)
    qed
    then show ?thesis
      by (cases "map_of (revRegistry (fst (doReload_merge slotFrom tip (p # rest) s rows out))) a")
         auto
  next
    case False
    with Cons.prems p have in_rest: "c \<in> fst ` set rest" by auto
    show ?thesis
      unfolding p doReload_merge_step
      using False Cons.prems in_rest
      by (intro Cons.IH) (auto simp: map_of_jsmap_delete)
  qed
qed

lemma doReload_begin_frame:
  "registry (fst (doReload_begin s)) = registry s \<and>
   revRegistry (fst (doReload_begin s)) = revRegistry s \<and>
   toRemove (fst (doReload_begin s)) = toRemove s"
  by (simp add: doReload_begin_def split: prod.splits)

lemma selectBatch_set:
  "set (fst (selectBatch reg hs batch out)) =
   set batch \<union> {a. \<exists>h \<in> set hs. map_of reg h = Some a \<and> a \<noteq> []}"
  by (induction reg hs batch out rule: selectBatch.induct)
     (auto simp: jsmap_get_def split: option.splits)

text \<open>An active execution with a non-empty batch ends in the state its merge loop ends in.\<close>

lemma doReload_state:
  assumes "isActive s" and "fst (snd (doReload_begin s)) = Some b" and "b \<noteq> []"
  shows "fst (doReload slotFrom onReloaded tip delegationsAndRewards s) =
         fst (doReload_merge slotFrom tip (delegationsAndRewards b) (fst (doReload_begin s)) [] [])"
  using assms by (auto simp: doReload_def split: prod.splits)

lemma merge_finalizes:
  fixes slotFrom :: "Tip \<Rightarrow> Slot" and tip and rows and out
  assumes "c \<in> fst ` set response" and "c \<in> set (toRemove s)"
  defines "s' \<equiv> fst (doReload_merge slotFrom tip response s rows out)"
  shows "\<not> isHashWatched s' c \<and> fromHash s' c = None \<and>
     (\<forall>a. fromHash s c = Some a \<longrightarrow> fromAddress s' a = None \<and> \<not> isAddressWatched s' a) \<and>
     ((\<forall>a. fromAddress s a = Some c \<longrightarrow> fromHash s c = Some a) \<longrightarrow>
        (\<forall>a. fromAddress s' a \<noteq> Some c))"
proof -
  have 1: "\<not> isHashWatched s' c \<and> fromHash s' c = None"
    using assms(1,2)
    by (simp add: s'_def isHashWatched_def fromHash_def jsmap_has_def jsmap_get_def
        doReload_merge_registry)
  have 2: "fromAddress s' a = None \<and> \<not> isAddressWatched s' a" if "fromHash s c = Some a" for a
    using doReload_merge_revRegistry_removed [OF assms(1,2), of a slotFrom tip rows out] that
    by (simp add: s'_def fromAddress_def fromHash_def isAddressWatched_def jsmap_has_def
        jsmap_get_def)
  have 3: "fromAddress s' a \<noteq> Some c"
    if inv: "\<forall>a. fromAddress s a = Some c \<longrightarrow> fromHash s c = Some a" for a
  proof
    assume "fromAddress s' a = Some c"
    then have b: "map_of (revRegistry s') a = Some c"
      by (simp add: fromAddress_def jsmap_get_def)
    then have "fromAddress s a = Some c"
      unfolding s'_def
      by (simp add: fromAddress_def jsmap_get_def doReload_merge_revRegistry_sub [where h = c])
    with inv have "fromHash s c = Some a" by blast
    from 2 [OF this] b show False by (simp add: fromAddress_def jsmap_get_def)
  qed
  from 1 2 3 show ?thesis by blast
qed

text \<open>
  Claim C2, as amended. Take a reload execution whose response has an entry for a
  credential \<open>c\<close> that is in the removal set when the results are iterated. When the
  execution completes, \<open>c\<close> is absent from the forward map, and the address the forward
  map held for \<open>c\<close> is absent from the reverse map; if that address was the only reverse
  entry for \<open>c\<close>, no reverse entry for \<open>c\<close> is left. The first part is the merge loop
  from any state at the time of iteration, the second a whole execution of an active
  component with a non-empty batch and nothing interleaved.
\<close>

theorem reload_finalizes_removal:
  "(c \<in> fst ` set response \<and> c \<in> set (toRemove s) \<longrightarrow>
      \<not> isHashWatched (fst (doReload_merge slotFrom tip response s rows out)) c \<and>
      fromHash (fst (doReload_merge slotFrom tip response s rows out)) c = None \<and>
      (\<forall>a. fromHash s c = Some a \<longrightarrow>
         fromAddress (fst (doReload_merge slotFrom tip response s rows out)) a = None \<and>
         \<not> isAddressWatched (fst (doReload_merge slotFrom tip response s rows out)) a) \<and>
      ((\<forall>a. fromAddress s a = Some c \<longrightarrow> fromHash s c = Some a) \<longrightarrow>
         (\<forall>a. fromAddress (fst (doReload_merge slotFrom tip response s rows out)) a
               \<noteq> Some c))) \<and>
   (isActive s \<and> fst (snd (doReload_begin s)) = Some b \<and> b \<noteq> [] \<and>
    c \<in> fst ` set (delegationsAndRewards b) \<and> c \<in> set (toRemove s) \<longrightarrow>
      \<not> isHashWatched (fst (doReload slotFrom onReloaded tip delegationsAndRewards s)) c \<and>
      (\<forall>a. fromHash s c = Some a \<longrightarrow>
         fromAddress (fst (doReload slotFrom onReloaded tip delegationsAndRewards s)) a = None) \<and>
      ((\<forall>a. fromAddress s a = Some c \<longrightarrow> fromHash s c = Some a) \<longrightarrow>
         (\<forall>a. fromAddress (fst (doReload slotFrom onReloaded tip delegationsAndRewards s)) a
               \<noteq> Some c)))"
proof (intro conjI impI)
  assume "c \<in> fst ` set response \<and> c \<in> set (toRemove s)"
  then have h: "c \<in> fst ` set response" "c \<in> set (toRemove s)" by simp_all
  note m = merge_finalizes [OF h, of slotFrom tip rows out]
  from m show "\<not> isHashWatched (fst (doReload_merge slotFrom tip response s rows out)) c"
    by blast
  from m show "fromHash (fst (doReload_merge slotFrom tip response s rows out)) c = None"
    by blast
  from m show "\<forall>a. fromHash s c = Some a \<longrightarrow>
         fromAddress (fst (doReload_merge slotFrom tip response s rows out)) a = None \<and>
         \<not> isAddressWatched (fst (doReload_merge slotFrom tip response s rows out)) a"
    by blast
  assume "\<forall>a. fromAddress s a = Some c \<longrightarrow> fromHash s c = Some a"
  with m show "\<forall>a. fromAddress (fst (doReload_merge slotFrom tip response s rows out)) a
               \<noteq> Some c"
    by blast
next
  assume a: "isActive s \<and> fst (snd (doReload_begin s)) = Some b \<and> b \<noteq> [] \<and>
    c \<in> fst ` set (delegationsAndRewards b) \<and> c \<in> set (toRemove s)"
  let ?s1 = "fst (doReload_begin s)"
  have st: "fst (doReload slotFrom onReloaded tip delegationsAndRewards s) =
            fst (doReload_merge slotFrom tip (delegationsAndRewards b) ?s1 [] [])"
    using a by (intro doReload_state) simp_all
  have h: "c \<in> fst ` set (delegationsAndRewards b)" "c \<in> set (toRemove ?s1)"
    using a by (simp_all add: doReload_begin_frame)
  have fr: "fromHash ?s1 = fromHash s" "fromAddress ?s1 = fromAddress s"
    by (simp_all add: fun_eq_iff fromHash_def fromAddress_def doReload_begin_frame)
  note m = merge_finalizes [OF h, of slotFrom tip "[]" "[]", unfolded fr, folded st]
  from m show "\<not> isHashWatched (fst (doReload slotFrom onReloaded tip delegationsAndRewards s)) c"
    by blast
  from m show "\<forall>a. fromHash s c = Some a \<longrightarrow>
         fromAddress (fst (doReload slotFrom onReloaded tip delegationsAndRewards s)) a = None"
    by blast
  assume "\<forall>a. fromAddress s a = Some c \<longrightarrow> fromHash s c = Some a"
  with m show "\<forall>a. fromAddress (fst (doReload slotFrom onReloaded tip delegationsAndRewards s)) a
               \<noteq> Some c"
    by blast
qed

lemma run_watched_eq:
  "run_watched =
     \<lparr>toReload = [], toRemove = [], registry = [(''c1'', ''f1c1'')],
      revRegistry = [(''f1c1'', ''c1'')], fullReload = False,
      willReloadDynamically = False, isActive = True\<rparr>"
  by (simp add: run_watched_def watch_def start_def createStakingIndexer_def
      rewardAddressHex_def Let_def)

lemma run_unwatched_eq:
  "run_unwatched =
     \<lparr>toReload = [''c1''], toRemove = [''c1''], registry = [(''c1'', ''f1c1'')],
      revRegistry = [(''f1c1'', ''c1'')], fullReload = False,
      willReloadDynamically = False, isActive = True\<rparr>"
  by (simp add: run_unwatched_def run_watched_eq unwatch_def reload_def jsmap_has_def
      jsset_add_def)

lemma run_rewatched_eq:
  "run_rewatched =
     \<lparr>toReload = [''c1''], toRemove = [''c1''], registry = [(''c1'', ''f1c1'')],
      revRegistry = [(''e1c1'', ''c1''), (''f1c1'', ''c1'')], fullReload = False,
      willReloadDynamically = False, isActive = True\<rparr>"
  by (simp add: run_rewatched_def watch_def start_def createStakingIndexer_def
      rewardAddressHex_def Let_def unwatch_def reload_def jsmap_has_def jsset_add_def)

theorem reload_finalizes_removal_witness:
  "\<not> isHashWatched (fst (doReload_merge slotOf Origin answer_c1 run_unwatched [] [])) ''c1'' \<and>
   fromAddress (fst (doReload_merge slotOf Origin answer_c1 run_unwatched [] [])) ''f1c1'' = None \<and>
   (\<forall>a. fromAddress (fst (doReload_merge slotOf Origin answer_c1 run_unwatched [] [])) a
         \<noteq> Some ''c1'') \<and>
   \<not> isHashWatched (fst (doReload slotOf False Origin (\<lambda>batch. answer_c1) run_unwatched)) ''c1'' \<and>
   fromAddress (fst (doReload slotOf False Origin (\<lambda>batch. answer_c1) run_unwatched)) ''f1c1''
     = None \<and>
   (\<forall>a. fromAddress (fst (doReload slotOf False Origin (\<lambda>batch. answer_c1) run_unwatched)) a
         \<noteq> Some ''c1'')"
proof -
  have h1: "''c1'' \<in> fst ` set answer_c1 \<and> ''c1'' \<in> set (toRemove run_unwatched)"
    by (simp add: answer_c1_def run_unwatched_eq)
  have h2: "isActive run_unwatched \<and> fst (snd (doReload_begin run_unwatched)) = Some [''f1c1''] \<and>
    [''f1c1''] \<noteq> [] \<and> ''c1'' \<in> fst ` set ((\<lambda>batch. answer_c1) [''f1c1'']) \<and>
    ''c1'' \<in> set (toRemove run_unwatched)"
    by (simp add: answer_c1_def run_unwatched_eq doReload_begin_def jsmap_get_def)
  have h3: "fromHash run_unwatched ''c1'' = Some ''f1c1''"
    by (simp add: run_unwatched_eq fromHash_def jsmap_get_def)
  have h4: "\<forall>a. fromAddress run_unwatched a = Some ''c1'' \<longrightarrow>
                fromHash run_unwatched ''c1'' = Some a"
    by (simp add: run_unwatched_eq fromHash_def fromAddress_def jsmap_get_def)
  show ?thesis
    using reload_finalizes_removal
      [of "''c1''" answer_c1 run_unwatched slotOf Origin "[]" "[]" "[''f1c1'']"
          "\<lambda>batch. answer_c1" False]
      h1 h2 h3 h4
    by blast
qed

text \<open>
  Claim C2, as stated, fails. The credential \<^verbatim>\<open>c1\<close> is watched as a key credential and
  again as a script credential, unwatched, and reloaded; the state source answers for it.
  Before the execution \<^verbatim>\<open>c1\<close> is in the removal set and its address is in the batch.
  After the execution \<^verbatim>\<open>c1\<close> has left the forward map, but it is still in the removal
  set, and the reverse map still resolves the key address to it.
\<close>

theorem reload_leaves_removal_mark:
  "''c1'' \<in> set (toRemove run_rewatched) \<and>
   fromHash run_rewatched ''c1'' = Some ''f1c1'' \<and>
   doReload slotOf False Origin (\<lambda>batch. answer_c1) run_rewatched =
     (\<lparr>toReload = [], toRemove = [''c1''], registry = [],
       revRegistry = [(''e1c1'', ''c1'')], fullReload = False,
       willReloadDynamically = False, isActive = True\<rparr>,
      [Console_log (Reloading 1), LedgerTip, DelegationsAndRewards [''f1c1''],
       Console_log (Removed ''c1'' ''f1c1''),
       Upsert_staking_state
         [\<lparr>state_hash = ''c1'', address = ''f1c1'', poolId = Some ''pool1'',
           rewards = 5, reloadedSlot = 0\<rparr>],
       Console_log (Reloaded 1 Origin)]) \<and>
   ''c1'' \<in> set (toRemove (fst (doReload slotOf False Origin (\<lambda>batch. answer_c1) run_rewatched))) \<and>
   fromAddress (fst (doReload slotOf False Origin (\<lambda>batch. answer_c1) run_rewatched)) ''e1c1''
     = Some ''c1''"
  by (simp add: run_rewatched_eq answer_c1_def doReload_def doReload_begin_def jsmap_get_def
      jsset_has_def jsmap_delete_def doReload_finish_def slotOf_def fromHash_def
      fromAddress_def Let_def)

subsection \<open>Deferred removal\<close>

lemma unwatch_watched:
  "isHashWatched s c \<Longrightarrow>
   unwatch c s = (True, s\<lparr>toRemove := jsset_add c (toRemove s)\<rparr>, [Console_log (Unwatched c)])"
  by (simp add: unwatch_def isHashWatched_def)

lemma unwatch_unknown:
  "\<not> isHashWatched s c \<Longrightarrow> unwatch c s = (False, s, [Console_warn (Not_Found c)])"
  by (simp add: unwatch_def isHashWatched_def)

lemma merge_keeps:
  assumes "c \<notin> fst ` set response"
  shows "fromHash (fst (doReload_merge slotFrom tip response s rows out)) c = fromHash s c"
  using assms by (simp add: fromHash_def jsmap_get_def doReload_merge_registry)

lemma merge_unwatches:
  assumes "c \<in> fst ` set response" and "c \<in> set (toRemove s)"
  shows "\<not> isHashWatched (fst (doReload_merge slotFrom tip response s rows out)) c"
  using assms by (simp add: isHashWatched_def jsmap_has_def doReload_merge_registry)

text \<open>
  After \<^verbatim>\<open>unwatch(c)\<close> and \<^verbatim>\<open>reload([c])\<close> on an active component, the next execution has a
  non-empty batch, and \<open>c\<close> is in the removal set when it iterates.
\<close>

lemma reload_after_unwatch_batch:
  assumes act: "isActive s" and w: "isHashWatched s c" and ne: "fromHash s c \<noteq> Some []"
  defines "s2 \<equiv> fst (reload (Some [c]) (fst (snd (unwatch c s))))"
  shows "\<exists>b. fst (snd (doReload_begin s2)) = Some b \<and> b \<noteq> [] \<and> isActive s2 \<and>
             c \<in> set (toRemove (fst (doReload_begin s2)))"
proof -
  obtain a where a: "map_of (registry s) c = Some a" "a \<noteq> []"
    using w ne by (auto simp: isHashWatched_def jsmap_has_def fromHash_def jsmap_get_def)
  have s2: "s2 = fst (reload (Some [c]) (s\<lparr>toRemove := jsset_add c (toRemove s)\<rparr>))"
    by (simp add: s2_def unwatch_watched [OF w])
  show ?thesis
  proof (cases "fullReload s")
    case True
    then have "s2 = s\<lparr>toRemove := jsset_add c (toRemove s)\<rparr>"
      by (simp add: s2 reload_def)
    moreover have "registry s \<noteq> []" using a by auto
    ultimately show ?thesis using True act
      by (simp add: doReload_begin_def jsmap_values_def jsset_add_def)
  next
    case False
    then have e: "s2 = s\<lparr>toRemove := jsset_add c (toRemove s),
                         toReload := fold jsset_add [c] (toReload s)\<rparr>"
      by (simp add: s2 reload_def)
    have ne2: "toReload s2 \<noteq> []" by (auto simp: e jsset_add_def)
    have cin: "c \<in> set (toReload s2)" by (simp add: e jsset_add_def)
    have "a \<in> set (fst (selectBatch (registry s2) (toReload s2) [] []))"
      unfolding selectBatch_set using cin a by (auto simp: e)
    then have "fst (selectBatch (registry s2) (toReload s2) [] []) \<noteq> []" by auto
    with False act ne2 show ?thesis
      by (auto simp: doReload_begin_def e jsset_add_def split: prod.splits)
  qed
qed

lemma reload_after_unwatch_removes:
  assumes act: "isActive s" and w: "isHashWatched s c" and ne: "fromHash s c \<noteq> Some []"
    and ans: "\<forall>b. c \<in> fst ` set (delegationsAndRewards b)"
  shows "\<not> isHashWatched
           (fst (doReload slotFrom onReloaded tip delegationsAndRewards
              (fst (reload (Some [c]) (fst (snd (unwatch c s))))))) c"
proof -
  let ?s2 = "fst (reload (Some [c]) (fst (snd (unwatch c s))))"
  from reload_after_unwatch_batch [OF act w ne]
  obtain b where b: "fst (snd (doReload_begin ?s2)) = Some b" "b \<noteq> []" "isActive ?s2"
    "c \<in> set (toRemove (fst (doReload_begin ?s2)))"
    by blast
  have "fst (doReload slotFrom onReloaded tip delegationsAndRewards ?s2) =
        fst (doReload_merge slotFrom tip (delegationsAndRewards b) (fst (doReload_begin ?s2)) [] [])"
    using b by (intro doReload_state) simp_all
  moreover have "c \<in> fst ` set (delegationsAndRewards b)" using ans by blast
  ultimately show ?thesis using b(4) by (simp add: merge_unwatches)
qed

text \<open>
  Claim C5. For a watched credential \<open>c\<close>, \<^verbatim>\<open>unwatch(c)\<close> returns true and leaves both
  registry maps as they were: \<^verbatim>\<open>fromHash(c)\<close> still answers the address and
  \<^verbatim>\<open>isHashWatched(c)\<close> is still true. The snapshot part of a reload execution does not
  touch the registry, and a merge whose response has no entry for \<open>c\<close> keeps \<open>c\<close>; a merge
  whose response has an entry for \<open>c\<close> ends with \<^verbatim>\<open>isHashWatched(c)\<close> false, and so does the
  execution that follows \<^verbatim>\<open>unwatch(c)\<close> and \<^verbatim>\<open>reload([c])\<close> on an active component when the
  state source answers for \<open>c\<close>. For a credential that is not in the forward map,
  \<^verbatim>\<open>unwatch(c)\<close> returns false and the state is unchanged.
\<close>

theorem unwatch_defers_removal:
  "(isHashWatched s c \<longrightarrow>
      fst (unwatch c s) = True \<and>
      registry (fst (snd (unwatch c s))) = registry s \<and>
      revRegistry (fst (snd (unwatch c s))) = revRegistry s \<and>
      fromHash (fst (snd (unwatch c s))) c = fromHash s c \<and>
      isHashWatched (fst (snd (unwatch c s))) c \<and>
      registry (fst (doReload_begin (fst (snd (unwatch c s))))) = registry s \<and>
      (c \<notin> fst ` set response \<longrightarrow>
         fromHash (fst (doReload_merge slotFrom tip response (fst (snd (unwatch c s))) rows out)) c
           = fromHash s c) \<and>
      (c \<in> fst ` set response \<longrightarrow>
         \<not> isHashWatched
             (fst (doReload_merge slotFrom tip response (fst (snd (unwatch c s))) rows out)) c) \<and>
      (isActive s \<and> fromHash s c \<noteq> Some [] \<and> (\<forall>b. c \<in> fst ` set (delegationsAndRewards b)) \<longrightarrow>
         \<not> isHashWatched
             (fst (doReload slotFrom onReloaded tip delegationsAndRewards
                (fst (reload (Some [c]) (fst (snd (unwatch c s))))))) c)) \<and>
   (\<not> isHashWatched s c \<longrightarrow> fst (unwatch c s) = False \<and> fst (snd (unwatch c s)) = s)"
proof (intro conjI impI)
  assume w: "isHashWatched s c"
  note u = unwatch_watched [OF w]
  show "fst (unwatch c s) = True" by (simp add: u)
  show "registry (fst (snd (unwatch c s))) = registry s" by (simp add: u)
  show "revRegistry (fst (snd (unwatch c s))) = revRegistry s" by (simp add: u)
  show "fromHash (fst (snd (unwatch c s))) c = fromHash s c" by (simp add: u fromHash_def)
  show "isHashWatched (fst (snd (unwatch c s))) c"
    using w by (simp add: u isHashWatched_def)
  show "registry (fst (doReload_begin (fst (snd (unwatch c s))))) = registry s"
    by (simp add: doReload_begin_frame u)
  show "fromHash (fst (doReload_merge slotFrom tip response (fst (snd (unwatch c s))) rows out)) c
        = fromHash s c" if "c \<notin> fst ` set response"
    using that by (simp add: u jsmap_get_def fromHash_def doReload_merge_registry)
  show "\<not> isHashWatched
             (fst (doReload_merge slotFrom tip response (fst (snd (unwatch c s))) rows out)) c"
    if "c \<in> fst ` set response"
    using that by (intro merge_unwatches) (simp_all add: u jsset_add_def)
  show "\<not> isHashWatched
             (fst (doReload slotFrom onReloaded tip delegationsAndRewards
                (fst (reload (Some [c]) (fst (snd (unwatch c s))))))) c"
    if "isActive s \<and> fromHash s c \<noteq> Some [] \<and> (\<forall>b. c \<in> fst ` set (delegationsAndRewards b))"
    using that w by (intro reload_after_unwatch_removes) simp_all
next
  assume "\<not> isHashWatched s c"
  then show "fst (unwatch c s) = False" "fst (snd (unwatch c s)) = s"
    by (simp_all add: unwatch_unknown)
qed

theorem unwatch_defers_removal_witness:
  "fst (unwatch ''c1'' run_watched) = True \<and>
   registry (fst (snd (unwatch ''c1'' run_watched))) = registry run_watched \<and>
   revRegistry (fst (snd (unwatch ''c1'' run_watched))) = revRegistry run_watched \<and>
   fromHash (fst (snd (unwatch ''c1'' run_watched))) ''c1'' = Some ''f1c1'' \<and>
   isHashWatched (fst (snd (unwatch ''c1'' run_watched))) ''c1'' \<and>
   fromHash (fst (doReload_merge slotOf Origin [] (fst (snd (unwatch ''c1'' run_watched))) [] []))
     ''c1'' = Some ''f1c1'' \<and>
   \<not> isHashWatched
       (fst (doReload_merge slotOf Origin answer_c1 (fst (snd (unwatch ''c1'' run_watched))) [] []))
       ''c1'' \<and>
   \<not> isHashWatched (fst (doReload slotOf False Origin (\<lambda>batch. answer_c1) run_unwatched)) ''c1'' \<and>
   fst (unwatch ''c2'' run_watched) = False \<and>
   fst (snd (unwatch ''c2'' run_watched)) = run_watched"
proof -
  have w1: "isHashWatched run_watched ''c1''" and w2: "\<not> isHashWatched run_watched ''c2''"
    by (simp_all add: run_watched_eq isHashWatched_def jsmap_has_def)
  have f: "fromHash run_watched ''c1'' = Some ''f1c1''"
    by (simp add: run_watched_eq fromHash_def jsmap_get_def)
  have a: "isActive run_watched \<and> fromHash run_watched ''c1'' \<noteq> Some [] \<and>
           (\<forall>b. ''c1'' \<in> fst ` set ((\<lambda>batch. answer_c1) b))"
    by (simp add: f) (simp add: run_watched_eq answer_c1_def)
  have r: "''c1'' \<in> fst ` set answer_c1" "''c1'' \<notin> fst ` set []"
    by (simp_all add: answer_c1_def)
  show ?thesis
    using unwatch_defers_removal
      [of run_watched "''c1''" "[]" slotOf Origin "[]" "[]" "\<lambda>batch. answer_c1" False]
      unwatch_defers_removal
      [of run_watched "''c1''" answer_c1 slotOf Origin "[]" "[]" "\<lambda>batch. answer_c1" False]
      unwatch_defers_removal
      [of run_watched "''c2''" "[]" slotOf Origin "[]" "[]" "\<lambda>batch. answer_c1" False]
      w1 w2 f a r
    unfolding run_unwatched_def
    by simp
qed

subsection \<open>The registry invariant\<close>

lemma jsmap_set_keys: "fst ` set (jsmap_set k v m) = insert k (fst ` set m)"
  by (induction m) auto

lemma distinct_jsmap_set: "distinct (map fst m) \<Longrightarrow> distinct (map fst (jsmap_set k v m))"
  by (induction m) (auto simp: jsmap_set_keys)

lemma watch_kinded_inverse:
  assumes inj: "address_determines_credential d" and I: "kinded_inverse d kf s" and ty: "ty = kf h0"
  shows "kinded_inverse d kf (s\<lparr>registry := jsmap_set h0 (d ty h0) (registry s),
           revRegistry := jsmap_set (d ty h0) h0 (revRegistry s)\<rparr>)"
proof -
  from I have inv: "\<And>h a. map_of (registry s) h = Some a \<longleftrightarrow> map_of (revRegistry s) a = Some h"
    and kd: "\<And>h a. map_of (registry s) h = Some a \<Longrightarrow> a = d (kf h) h"
    and d1: "distinct (map fst (registry s))" and d2: "distinct (map fst (revRegistry s))"
    by (auto simp: kinded_inverse_def registry_inverse_def fromHash_def fromAddress_def jsmap_get_def)
  from inj have inj': "\<And>ty ty' h h'. d ty h = d ty' h' \<Longrightarrow> h = h'"
    unfolding address_determines_credential_def by blast
  have "map_of (jsmap_set h0 (d ty h0) (registry s)) h = Some a \<longleftrightarrow>
        map_of (jsmap_set (d ty h0) h0 (revRegistry s)) a = Some h" for h a
    unfolding map_of_jsmap_set using inv [of h a] kd [of h a] inj' [of ty h0 "kf h" h] ty
    by auto
  moreover have "a = d (kf h) h" if "map_of (jsmap_set h0 (d ty h0) (registry s)) h = Some a" for h a
    using that kd [of h a] ty unfolding map_of_jsmap_set by (auto split: if_splits)
  ultimately show ?thesis
    using d1 d2
    by (simp add: kinded_inverse_def registry_inverse_def fromHash_def fromAddress_def
        jsmap_get_def distinct_jsmap_set)
qed

lemma batchWatch_loop_kinded_inverse:
  assumes inj: "address_determines_credential d"
  shows "kinded_inverse d kf s \<Longrightarrow> (\<forall>h \<in> set hs. ty = kf h) \<Longrightarrow>
         kinded_inverse d kf (batchWatch_loop d hs ty s)"
proof (induction hs arbitrary: s)
  case Nil
  then show ?case by simp
next
  case (Cons h hs)
  from Cons.prems have step: "kinded_inverse d kf (s\<lparr>registry := jsmap_set h (d ty h) (registry s),
           revRegistry := jsmap_set (d ty h) h (revRegistry s)\<rparr>)"
    by (intro watch_kinded_inverse [OF inj]) simp_all
  from Cons.prems have rest: "\<forall>h \<in> set hs. ty = kf h" by auto
  from Cons.IH [OF step rest] show ?case by (simp add: Let_def)
qed

lemma apply_call_kinded_inverse:
  assumes inj: "address_determines_credential d" and I: "kinded_inverse d kf s"
    and k: "\<forall>p \<in> set (call_kinds c). snd p = kf (fst p)"
  shows "kinded_inverse d kf (apply_call d c s)"
proof (cases c)
  case (Watch h ty)
  with k have "ty = kf h" by simp
  from watch_kinded_inverse [OF inj I this] Watch show ?thesis
    by (simp add: watch_def Let_def)
next
  case (BatchWatch hs ty)
  with k have "\<forall>h \<in> set hs. ty = kf h" by simp
  from batchWatch_loop_kinded_inverse [OF inj I this] BatchWatch show ?thesis
    by (simp add: batchWatch_def)
next
  case (Unwatch h)
  with I show ?thesis
    by (simp add: unwatch_def kinded_inverse_def registry_inverse_def fromHash_def
        fromAddress_def)
qed

lemma apply_calls_kinded_inverse:
  assumes inj: "address_determines_credential d"
  shows "kinded_inverse d kf s \<Longrightarrow>
         (\<forall>p \<in> set (concat (map call_kinds cs)). snd p = kf (fst p)) \<Longrightarrow>
         kinded_inverse d kf (apply_calls d cs s)"
proof (induction cs arbitrary: s)
  case Nil
  then show ?case by simp
next
  case (Cons c cs)
  from Cons.prems have step: "kinded_inverse d kf (apply_call d c s)"
    by (intro apply_call_kinded_inverse [OF inj]) simp_all
  from Cons.prems have rest: "\<forall>p \<in> set (concat (map call_kinds cs)). snd p = kf (fst p)"
    by auto
  from Cons.IH [OF step rest] show ?case by simp
qed

lemma kinded_inverse_initial: "kinded_inverse d kf createStakingIndexer"
  by (simp add: kinded_inverse_def registry_inverse_def createStakingIndexer_def fromHash_def
      fromAddress_def jsmap_get_def)

lemma one_kind_function:
  assumes "one_kind_per_credential cs"
  shows "\<exists>kf. \<forall>p \<in> set (concat (map call_kinds cs)). snd p = kf (fst p)"
proof -
  let ?K = "concat (map call_kinds cs)"
  let ?kf = "\<lambda>h. case map_of ?K h of None \<Rightarrow> Script | Some ty \<Rightarrow> ty"
  have "snd p = ?kf (fst p)" if p: "p \<in> set ?K" for p
  proof -
    from p have "fst p \<in> fst ` set ?K" by (rule imageI)
    then obtain ty where ty: "map_of ?K (fst p) = Some ty"
      by (cases "map_of ?K (fst p)") (auto simp: map_of_eq_None_iff)
    then have "(fst p, ty) \<in> set ?K" by (rule map_of_SomeD)
    moreover from assms have "\<forall>q \<in> set ?K. fst p = fst q \<longrightarrow> snd p = snd q"
      unfolding one_kind_per_credential_def using p by (rule bspec)
    ultimately have "snd p = ty" by (auto dest: bspec)
    with ty show ?thesis by simp
  qed
  then have "\<forall>p \<in> set ?K. snd p = ?kf (fst p)" ..
  then show ?thesis by (rule exI [of _ ?kf])
qed

lemma rewardAddressHex_determines: "address_determines_credential rewardAddressHex"
  unfolding address_determines_credential_def rewardAddressHex_def
  by (auto split: StakingType.splits)

text \<open>
  Claim C1, as amended. Let the address derivation give different credentials different
  addresses. After every sequence of \<^verbatim>\<open>watch\<close>, \<^verbatim>\<open>batchWatch\<close> and \<^verbatim>\<open>unwatch\<close> calls in
  which no credential is watched under two different kinds, the forward map and the reverse
  map are exact inverses: \<^verbatim>\<open>fromHash(c)\<close> is \<open>a\<close> exactly when \<^verbatim>\<open>fromAddress(a)\<close> is \<open>c\<close>, and
  neither map holds a key twice.
\<close>

theorem registry_inverse_one_kind:
  assumes "address_determines_credential credentialToRewardAddress"
    and "one_kind_per_credential cs"
  shows "registry_inverse (apply_calls credentialToRewardAddress cs createStakingIndexer)"
proof -
  from one_kind_function [OF assms(2)] obtain kf
    where "\<forall>p \<in> set (concat (map call_kinds cs)). snd p = kf (fst p)" ..
  from apply_calls_kinded_inverse [OF assms(1) kinded_inverse_initial this]
  show ?thesis by (simp add: kinded_inverse_def)
qed

theorem registry_inverse_one_kind_witness:
  "apply_calls rewardAddressHex
     [Watch ''c1'' Script, BatchWatch [''c2'', ''c1''] Script, Unwatch ''c1'', Watch ''c2'' Script]
     createStakingIndexer =
   \<lparr>toReload = [], toRemove = [''c1''],
     registry = [(''c1'', ''f1c1''), (''c2'', ''f1c2'')],
     revRegistry = [(''f1c1'', ''c1''), (''f1c2'', ''c2'')],
     fullReload = False, willReloadDynamically = False, isActive = False\<rparr> \<and>
   registry_inverse
     (apply_calls rewardAddressHex
        [Watch ''c1'' Script, BatchWatch [''c2'', ''c1''] Script, Unwatch ''c1'', Watch ''c2'' Script]
        createStakingIndexer)"
proof -
  have k: "one_kind_per_credential
     [Watch ''c1'' Script, BatchWatch [''c2'', ''c1''] Script, Unwatch ''c1'', Watch ''c2'' Script]"
    by (simp add: one_kind_per_credential_def)
  have e: "apply_calls rewardAddressHex
     [Watch ''c1'' Script, BatchWatch [''c2'', ''c1''] Script, Unwatch ''c1'', Watch ''c2'' Script]
     createStakingIndexer =
   \<lparr>toReload = [], toRemove = [''c1''],
     registry = [(''c1'', ''f1c1''), (''c2'', ''f1c2'')],
     revRegistry = [(''f1c1'', ''c1''), (''f1c2'', ''c2'')],
     fullReload = False, willReloadDynamically = False, isActive = False\<rparr>"
    by (simp add: watch_def batchWatch_def unwatch_def createStakingIndexer_def
        rewardAddressHex_def jsmap_has_def jsset_add_def Let_def)
  from registry_inverse_one_kind [OF rewardAddressHex_determines k] e
  show ?thesis by simp
qed

text \<open>
  Claim C1, as stated, fails. \<^verbatim>\<open>watch("c1", "Key")\<close> followed by \<^verbatim>\<open>watch("c1", "Script")\<close>
  leaves the forward map with the script address for \<^verbatim>\<open>c1\<close>, while the reverse map still
  resolves the key address to \<^verbatim>\<open>c1\<close>: an extra reverse entry.
\<close>

theorem rewatch_other_kind_breaks_inverse:
  "apply_calls rewardAddressHex [Watch ''c1'' Key, Watch ''c1'' Script] createStakingIndexer =
   \<lparr>toReload = [], toRemove = [], registry = [(''c1'', ''f1c1'')],
     revRegistry = [(''e1c1'', ''c1''), (''f1c1'', ''c1'')],
     fullReload = False, willReloadDynamically = False, isActive = False\<rparr> \<and>
   fromHash
     (apply_calls rewardAddressHex [Watch ''c1'' Key, Watch ''c1'' Script] createStakingIndexer)
     ''c1'' = Some ''f1c1'' \<and>
   fromAddress
     (apply_calls rewardAddressHex [Watch ''c1'' Key, Watch ''c1'' Script] createStakingIndexer)
     ''e1c1'' = Some ''c1'' \<and>
   \<not> registry_inverse
     (apply_calls rewardAddressHex [Watch ''c1'' Key, Watch ''c1'' Script] createStakingIndexer)"
proof -
  have e: "apply_calls rewardAddressHex [Watch ''c1'' Key, Watch ''c1'' Script]
             createStakingIndexer =
   \<lparr>toReload = [], toRemove = [], registry = [(''c1'', ''f1c1'')],
     revRegistry = [(''e1c1'', ''c1''), (''f1c1'', ''c1'')],
     fullReload = False, willReloadDynamically = False, isActive = False\<rparr>"
    by (simp add: watch_def createStakingIndexer_def rewardAddressHex_def Let_def)
  have "\<not> registry_inverse \<lparr>toReload = [], toRemove = [], registry = [(''c1'', ''f1c1'')],
     revRegistry = [(''e1c1'', ''c1''), (''f1c1'', ''c1'')],
     fullReload = False, willReloadDynamically = False, isActive = False\<rparr>"
  proof
    assume "registry_inverse \<lparr>toReload = [], toRemove = [], registry = [(''c1'', ''f1c1'')],
     revRegistry = [(''e1c1'', ''c1''), (''f1c1'', ''c1'')],
     fullReload = False, willReloadDynamically = False, isActive = False\<rparr>"
    then have "fromHash \<lparr>toReload = [], toRemove = [], registry = [(''c1'', ''f1c1'')],
        revRegistry = [(''e1c1'', ''c1''), (''f1c1'', ''c1'')],
        fullReload = False, willReloadDynamically = False, isActive = False\<rparr> ''c1'' =
       Some ''e1c1'' \<longleftrightarrow>
      fromAddress \<lparr>toReload = [], toRemove = [], registry = [(''c1'', ''f1c1'')],
        revRegistry = [(''e1c1'', ''c1''), (''f1c1'', ''c1'')],
        fullReload = False, willReloadDynamically = False, isActive = False\<rparr> ''e1c1'' =
       Some ''c1''"
      unfolding registry_inverse_def by blast
    then show False by (simp add: fromHash_def fromAddress_def jsmap_get_def)
  qed
  with e show ?thesis by (simp add: fromHash_def fromAddress_def jsmap_get_def)
qed

subsection \<open>The block handler\<close>

lemma withdrawals_loop_closed:
  "withdrawals_loop st sl txid ws events = events @ withdraw_actions st sl txid ws"
  by (induction st sl txid ws events rule: withdrawals_loop.induct)
     (simp_all add: withdraw_actions_def split: option.splits)

lemma isHashWatched_toRemove [simp]:
  "isHashWatched (st\<lparr>toRemove := x\<rparr>) = isHashWatched st"
  by (simp add: fun_eq_iff isHashWatched_def)

lemma fromAddress_toRemove [simp]:
  "fromAddress (st\<lparr>toRemove := x\<rparr>) = fromAddress st"
  by (simp add: fun_eq_iff fromAddress_def)

lemma spec_certificate_actions_toRemove [simp]:
  "spec_certificate_actions (st\<lparr>toRemove := x\<rparr>) = spec_certificate_actions st"
proof (intro ext)
  fix sl txid cert
  show "spec_certificate_actions (st\<lparr>toRemove := x\<rparr>) sl txid cert =
        spec_certificate_actions st sl txid cert"
    by (cases cert) simp_all
qed

lemma spec_certificate_unwatch_toRemove [simp]:
  "spec_certificate_unwatch (st\<lparr>toRemove := x\<rparr>) = spec_certificate_unwatch st"
proof
  fix cert
  show "spec_certificate_unwatch (st\<lparr>toRemove := x\<rparr>) cert = spec_certificate_unwatch st cert"
    by (cases cert) simp_all
qed

lemma withdraw_actions_toRemove [simp]:
  "withdraw_actions (st\<lparr>toRemove := x\<rparr>) = withdraw_actions st"
  by (simp add: fun_eq_iff withdraw_actions_def)

lemma certificates_loop_closed:
  "certificates_loop sl txid certs st events out =
     (st\<lparr>toRemove := fold jsset_add (concat (map (spec_certificate_unwatch st) certs)) (toRemove st)\<rparr>,
      events @ concat (map (spec_certificate_actions st sl txid) certs),
      out @ unwatch_trace (concat (map (spec_certificate_unwatch st) certs)))"
proof (induction sl txid certs st events out rule: certificates_loop.induct)
  case (4 sl txid h certs st events out)
  show ?case
  proof (cases "isHashWatched st h")
    case True
    then have u: "unwatch h st = (True, st\<lparr>toRemove := jsset_add h (toRemove st)\<rparr>, [Console_log (Unwatched h)])"
      by (simp add: unwatch_def isHashWatched_def)
    from 4(1) [OF True u [symmetric] refl] True u show ?thesis
      by (simp add: unwatch_trace_def)
  next
    case False
    with 4(2) show ?thesis by simp
  qed
qed (simp_all add: unwatch_trace_def)

lemma unwatch_trace_append: "unwatch_trace (xs @ ys) = unwatch_trace xs @ unwatch_trace ys"
  by (simp add: unwatch_trace_def)

lemma transactions_loop_closed:
  "transactions_loop sl txs st events out =
     (st\<lparr>toRemove :=
          fold jsset_add
            (concat (map (\<lambda>tx. concat (map (spec_certificate_unwatch st) (certificates tx))) txs))
            (toRemove st)\<rparr>,
      events @
        concat (map (\<lambda>tx. withdraw_actions st sl (tx_id tx) (withdrawals tx) @
                      concat (map (spec_certificate_actions st sl (tx_id tx)) (certificates tx)))
                  txs),
      out @
        unwatch_trace
          (concat (map (\<lambda>tx. concat (map (spec_certificate_unwatch st) (certificates tx))) txs)))"
proof (induction txs arbitrary: st events out)
  case Nil
  show ?case by (simp add: unwatch_trace_def)
next
  case (Cons tx txs)
  show ?case
    by (simp add: withdrawals_loop_closed certificates_loop_closed Cons.IH unwatch_trace_append)
qed

lemma spec_certificate_unwatch_actions:
  "spec_certificate_actions st sl txid cert = [] \<Longrightarrow> spec_certificate_unwatch st cert = []"
  by (cases cert) (simp_all split: if_splits)

lemma no_actions_no_unwatch:
  assumes "concat (map (\<lambda>tx. withdraw_actions st sl (tx_id tx) (withdrawals tx) @
                      concat (map (spec_certificate_actions st sl (tx_id tx)) (certificates tx)))
                  txs) = []"
  shows "concat (map (\<lambda>tx. concat (map (spec_certificate_unwatch st) (certificates tx))) txs) = []"
  using assms by (auto dest: spec_certificate_unwatch_actions)

lemma withdraw_actions_spec:
  assumes "reverse_entries_watched st"
  shows "withdraw_actions st sl (tx_id tx) (withdrawals tx) = spec_withdraw_actions st sl tx"
proof -
  have "(case fromAddress st addr of
          Some h \<Rightarrow>
            if h \<noteq> [] then [\<lparr>hash = h, slot = sl, txId = tx_id tx, action = Withdraw amount\<rparr>]
            else []
        | None \<Rightarrow> []) =
        (case fromAddress st addr of
          Some h \<Rightarrow>
            if isHashWatched st h
            then [\<lparr>hash = h, slot = sl, txId = tx_id tx, action = Withdraw amount\<rparr>]
            else []
        | None \<Rightarrow> [])" for addr amount
    using assms unfolding reverse_entries_watched_def
    by (cases "fromAddress st addr") auto
  then show ?thesis
    by (simp add: withdraw_actions_def spec_withdraw_actions_def)
qed

lemma resolved_block_actions_spec:
  assumes "reverse_entries_watched st"
  shows "resolved_block_actions st block = spec_block_actions st block"
  by (simp add: resolved_block_actions_def spec_block_actions_def spec_tx_actions_def [abs_def]
      withdraw_actions_spec [OF assms])

lemma run_stale_eq:
  "run_stale =
     \<lparr>toReload = [], toRemove = [''c1''], registry = [],
      revRegistry = [(''e1c1'', ''c1'')], fullReload = False,
      willReloadDynamically = False, isActive = True\<rparr>"
  by (simp add: run_stale_def run_rewatched_eq answer_c1_def doReload_def doReload_begin_def
      jsmap_get_def jsset_has_def jsmap_delete_def doReload_finish_def slotOf_def Let_def)

text \<open>
  Claim C8, as amended. For every block the extractor returns exactly, in order: per
  transaction a withdraw action with the amount for each withdrawal entry whose address
  the reverse registry map resolves to a credential that is not the empty string, whether
  or not that credential is in the forward map; then a register, a delegate (with the
  pool) or a deregister action for each such certificate whose credential is watched. It
  calls \<^verbatim>\<open>unwatch\<close> once for each deregistration certificate of a watched credential, which
  only adds the credential to the removal set. Nothing else produces an action and the
  extractor has no failing branch. When every reverse entry resolves to a watched
  credential that is not empty, the withdraw actions are exactly those of the entries
  whose address resolves to a watched credential.
\<close>

theorem afterBlock_extracts_resolved:
  "transactions_loop (header_slot block) (body block) st [] [] =
     (st\<lparr>toRemove := fold jsset_add (spec_block_unwatch st block) (toRemove st)\<rparr>,
      resolved_block_actions st block,
      unwatch_trace (spec_block_unwatch st block)) \<and>
   afterBlock_events block st = resolved_block_actions st block \<and>
   (reverse_entries_watched st \<longrightarrow> afterBlock_events block st = spec_block_actions st block)"
proof -
  have a: "transactions_loop (header_slot block) (body block) st [] [] =
     (st\<lparr>toRemove := fold jsset_add (spec_block_unwatch st block) (toRemove st)\<rparr>,
      resolved_block_actions st block,
      unwatch_trace (spec_block_unwatch st block))"
    by (simp add: transactions_loop_closed resolved_block_actions_def spec_block_unwatch_def)
  then have b: "afterBlock_events block st = resolved_block_actions st block"
    by (simp add: afterBlock_events_def)
  have c: "reverse_entries_watched st \<longrightarrow> afterBlock_events block st = spec_block_actions st block"
    by (simp add: b resolved_block_actions_spec)
  from a b c show ?thesis by blast
qed

theorem afterBlock_extracts_resolved_witness:
  "afterBlock_events
     \<lparr>header_slot = 1000,
      body = [\<lparr>tx_id = ''tx0'', withdrawals = [(''f1c1'', 7), (''f1c9'', 9)],
               certificates = [StakeKeyRegistration ''c1'', StakeDelegation ''c1'' ''pool1'',
                 StakeDelegation ''c9'' ''pool2'', OtherCertificate,
                 StakeKeyDeregistration ''c9'', StakeKeyDeregistration ''c1'']\<rparr>]\<rparr>
     run_watched =
   [\<lparr>hash = ''c1'', slot = 1000, txId = ''tx0'', action = Withdraw 7\<rparr>,
    \<lparr>hash = ''c1'', slot = 1000, txId = ''tx0'', action = Register\<rparr>,
    \<lparr>hash = ''c1'', slot = 1000, txId = ''tx0'', action = Delegate ''pool1''\<rparr>,
    \<lparr>hash = ''c1'', slot = 1000, txId = ''tx0'', action = Deregister\<rparr>] \<and>
   transactions_loop 1000
     [\<lparr>tx_id = ''tx0'', withdrawals = [(''f1c1'', 7), (''f1c9'', 9)],
       certificates = [StakeKeyRegistration ''c1'', StakeDelegation ''c1'' ''pool1'',
         StakeDelegation ''c9'' ''pool2'', OtherCertificate,
         StakeKeyDeregistration ''c9'', StakeKeyDeregistration ''c1'']\<rparr>]
     run_watched [] [] =
   (run_watched\<lparr>toRemove := [''c1'']\<rparr>,
    [\<lparr>hash = ''c1'', slot = 1000, txId = ''tx0'', action = Withdraw 7\<rparr>,
     \<lparr>hash = ''c1'', slot = 1000, txId = ''tx0'', action = Register\<rparr>,
     \<lparr>hash = ''c1'', slot = 1000, txId = ''tx0'', action = Delegate ''pool1''\<rparr>,
     \<lparr>hash = ''c1'', slot = 1000, txId = ''tx0'', action = Deregister\<rparr>],
    [Call_unwatch ''c1'', Console_log (Unwatched ''c1'')])"
proof -
  let ?blk = "\<lparr>header_slot = 1000,
        body = [\<lparr>tx_id = ''tx0'', withdrawals = [(''f1c1'', 7), (''f1c9'', 9)],
               certificates = [StakeKeyRegistration ''c1'', StakeDelegation ''c1'' ''pool1'',
                 StakeDelegation ''c9'' ''pool2'', OtherCertificate,
                 StakeKeyDeregistration ''c9'', StakeKeyDeregistration ''c1'']\<rparr>]\<rparr>"
  have h: "reverse_entries_watched run_watched"
    by (simp add: reverse_entries_watched_def run_watched_eq fromAddress_def isHashWatched_def
        jsmap_get_def jsmap_has_def)
  have s: "spec_block_actions run_watched ?blk =
     [\<lparr>hash = ''c1'', slot = 1000, txId = ''tx0'', action = Withdraw 7\<rparr>,
      \<lparr>hash = ''c1'', slot = 1000, txId = ''tx0'', action = Register\<rparr>,
      \<lparr>hash = ''c1'', slot = 1000, txId = ''tx0'', action = Delegate ''pool1''\<rparr>,
      \<lparr>hash = ''c1'', slot = 1000, txId = ''tx0'', action = Deregister\<rparr>]"
    by (simp add: spec_block_actions_def spec_tx_actions_def spec_withdraw_actions_def
        run_watched_eq fromAddress_def isHashWatched_def jsmap_get_def jsmap_has_def)
  have u: "spec_block_unwatch run_watched ?blk = [''c1'']"
    by (simp add: spec_block_unwatch_def run_watched_eq isHashWatched_def jsmap_has_def)
  note r = afterBlock_extracts_resolved [where block = ?blk and st = run_watched]
  from r h have 1: "afterBlock_events ?blk run_watched = spec_block_actions run_watched ?blk"
    by blast
  from r 1 have 2: "transactions_loop (header_slot ?blk) (body ?blk) run_watched [] [] =
     (run_watched\<lparr>toRemove := fold jsset_add (spec_block_unwatch run_watched ?blk)
                                  (toRemove run_watched)\<rparr>,
      spec_block_actions run_watched ?blk,
      unwatch_trace (spec_block_unwatch run_watched ?blk))"
    by simp
  have 3: "toRemove run_watched = []" by (simp add: run_watched_eq)
  from 1 2 show ?thesis
    unfolding s u 3 by (simp add: unwatch_trace_def jsset_add_def)
qed

text \<open>
  Claim C8, as stated, fails. After \<^verbatim>\<open>c1\<close> has been watched under both kinds, unwatched
  and reloaded, it is not watched any more, but the reverse map still resolves its key
  address. A block that withdraws from that address yields a withdraw action for \<^verbatim>\<open>c1\<close>,
  where the extractor as the specification words it yields none.
\<close>

theorem stale_reverse_entry_withdraws:
  "\<not> isHashWatched run_stale ''c1'' \<and>
   fromAddress run_stale ''e1c1'' = Some ''c1'' \<and>
   afterBlock_events
     \<lparr>header_slot = 1000,
      body = [\<lparr>tx_id = ''tx0'', withdrawals = [(''e1c1'', 7)], certificates = []\<rparr>]\<rparr>
     run_stale =
   [\<lparr>hash = ''c1'', slot = 1000, txId = ''tx0'', action = Withdraw 7\<rparr>] \<and>
   spec_block_actions run_stale
     \<lparr>header_slot = 1000,
      body = [\<lparr>tx_id = ''tx0'', withdrawals = [(''e1c1'', 7)], certificates = []\<rparr>]\<rparr> = []"
  by (simp add: run_stale_eq afterBlock_events_def spec_block_actions_def spec_tx_actions_def
      spec_withdraw_actions_def fromAddress_def isHashWatched_def jsmap_get_def jsmap_has_def)

lemma afterBlock_closed:
  "afterBlock storeBlock inSync block st =
     (if afterBlock_events block st \<noteq> [] then
        (if inSync
         then fst (reload (Some (map hash (afterBlock_events block st)))
                (st\<lparr>toRemove := fold jsset_add (spec_block_unwatch st block) (toRemove st)\<rparr>))
         else st\<lparr>toRemove := fold jsset_add (spec_block_unwatch st block) (toRemove st)\<rparr>,
         unwatch_trace (spec_block_unwatch st block) @
         (if storeBlock then [StoreBlock] else []) @
         [Insert_staking (afterBlock_events block st)] @
         (if inSync
          then Call_reload (Some (map hash (afterBlock_events block st))) #
               snd (reload (Some (map hash (afterBlock_events block st)))
                 (st\<lparr>toRemove := fold jsset_add (spec_block_unwatch st block) (toRemove st)\<rparr>))
          else []))
      else (st, []))"
proof (cases "afterBlock_events block st = []")
  case True
  then have e: "concat (map (\<lambda>tx. withdraw_actions st (header_slot block) (tx_id tx)
                      (withdrawals tx) @
                    concat (map (spec_certificate_actions st (header_slot block) (tx_id tx))
                      (certificates tx)))
                  (body block)) = []"
    by (simp only: afterBlock_events_def transactions_loop_closed fst_conv snd_conv append_Nil)
  have u: "concat (map (\<lambda>tx. concat (map (spec_certificate_unwatch st) (certificates tx)))
               (body block)) = []"
    using e by (rule no_actions_no_unwatch)
  show ?thesis
    unfolding afterBlock_def afterBlock_events_def transactions_loop_closed u e
    by (simp add: unwatch_trace_def)
next
  case False
  then show ?thesis
    by (simp add: afterBlock_def afterBlock_events_def transactions_loop_closed
        spec_block_unwatch_def Let_def split: prod.splits)
qed

lemma afterBlock_registry:
  "registry (fst (afterBlock storeBlock inSync block st)) = registry st \<and>
   revRegistry (fst (afterBlock storeBlock inSync block st)) = revRegistry st"
  by (simp add: afterBlock_closed reload_def split: option.splits)

lemma unwatch_trace_members:
  "e \<in> set (unwatch_trace hs) \<Longrightarrow> (\<exists>h. e = Call_unwatch h \<or> e = Console_log (Unwatched h))"
  by (auto simp: unwatch_trace_def)

lemma reload_members: "e \<in> set (snd (reload hashes s)) \<Longrightarrow> e = ReloadDebounce"
  by (auto simp: reload_def split: option.splits if_splits)

text \<open>
  Claim C7. When the block produced at least one action, \<^verbatim>\<open>afterBlock\<close> does, after the
  extraction and in this order: the \<^verbatim>\<open>storeBlock\<close> hook if one was supplied, one insert of
  all the actions into the log, and, only if \<^verbatim>\<open>inSync\<close>, the call of \<^verbatim>\<open>reload\<close> with the
  credentials of the actions. When the block produced no action it does nothing and the
  state is unchanged. So the hook runs exactly when it was supplied and there is an action,
  the insert exactly when there is an action, the \<^verbatim>\<open>reload\<close> call exactly when there is an
  action and \<^verbatim>\<open>inSync\<close> holds; the registry maps are never changed (no watch call). For
  the block at slot 1000 whose one transaction \<open>tx0\<close> registers the watched credential
  \<open>h1\<close>: one action \<^verbatim>\<open>{h1, register, null, 1000, tx0}\<close>, one inserted row, and
  \<^verbatim>\<open>reload([h1])\<close> if \<^verbatim>\<open>inSync\<close>.
\<close>

theorem afterBlock_order:
  "(afterBlock_events block st \<noteq> [] \<longrightarrow>
      afterBlock storeBlock inSync block st =
        (if inSync
         then fst (reload (Some (map hash (afterBlock_events block st)))
                (st\<lparr>toRemove := fold jsset_add (spec_block_unwatch st block) (toRemove st)\<rparr>))
         else st\<lparr>toRemove := fold jsset_add (spec_block_unwatch st block) (toRemove st)\<rparr>,
         unwatch_trace (spec_block_unwatch st block) @
         (if storeBlock then [StoreBlock] else []) @
         [Insert_staking (afterBlock_events block st)] @
         (if inSync
          then Call_reload (Some (map hash (afterBlock_events block st))) #
               snd (reload (Some (map hash (afterBlock_events block st)))
                 (st\<lparr>toRemove := fold jsset_add (spec_block_unwatch st block) (toRemove st)\<rparr>))
          else []))) \<and>
   (afterBlock_events block st = [] \<longrightarrow> afterBlock storeBlock inSync block st = (st, [])) \<and>
   (StoreBlock \<in> set (snd (afterBlock storeBlock inSync block st)) \<longleftrightarrow>
      storeBlock \<and> afterBlock_events block st \<noteq> []) \<and>
   (Insert_staking evs \<in> set (snd (afterBlock storeBlock inSync block st)) \<longleftrightarrow>
      evs = afterBlock_events block st \<and> afterBlock_events block st \<noteq> []) \<and>
   (Call_reload hs \<in> set (snd (afterBlock storeBlock inSync block st)) \<longleftrightarrow>
      hs = Some (map hash (afterBlock_events block st)) \<and> inSync \<and>
      afterBlock_events block st \<noteq> []) \<and>
   registry (fst (afterBlock storeBlock inSync block st)) = registry st \<and>
   revRegistry (fst (afterBlock storeBlock inSync block st)) = revRegistry st \<and>
   (isHashWatched st h1 \<longrightarrow>
      afterBlock_events
        \<lparr>header_slot = 1000,
         body = [\<lparr>tx_id = tx0, withdrawals = [], certificates = [StakeKeyRegistration h1]\<rparr>]\<rparr>
        st =
        [\<lparr>hash = h1, slot = 1000, txId = tx0, action = Register\<rparr>] \<and>
      afterBlock storeBlock inSync
        \<lparr>header_slot = 1000,
         body = [\<lparr>tx_id = tx0, withdrawals = [], certificates = [StakeKeyRegistration h1]\<rparr>]\<rparr>
        st =
        (if inSync then fst (reload (Some [h1]) st) else st,
         (if storeBlock then [StoreBlock] else []) @
         [Insert_staking [\<lparr>hash = h1, slot = 1000, txId = tx0, action = Register\<rparr>]] @
         (if inSync then Call_reload (Some [h1]) # snd (reload (Some [h1]) st) else [])))"
proof -
  let ?out = "snd (afterBlock storeBlock inSync block st)"
  let ?evs = "afterBlock_events block st"
  have a: "?evs \<noteq> [] \<longrightarrow>
      afterBlock storeBlock inSync block st =
        (if inSync
         then fst (reload (Some (map hash ?evs))
                (st\<lparr>toRemove := fold jsset_add (spec_block_unwatch st block) (toRemove st)\<rparr>))
         else st\<lparr>toRemove := fold jsset_add (spec_block_unwatch st block) (toRemove st)\<rparr>,
         unwatch_trace (spec_block_unwatch st block) @
         (if storeBlock then [StoreBlock] else []) @
         [Insert_staking ?evs] @
         (if inSync
          then Call_reload (Some (map hash ?evs)) #
               snd (reload (Some (map hash ?evs))
                 (st\<lparr>toRemove := fold jsset_add (spec_block_unwatch st block) (toRemove st)\<rparr>))
          else []))"
    by (simp add: afterBlock_closed [of storeBlock inSync block st])
  have b: "?evs = [] \<longrightarrow> afterBlock storeBlock inSync block st = (st, [])"
    by (simp add: afterBlock_closed [of storeBlock inSync block st])
  have c: "StoreBlock \<in> set ?out \<longleftrightarrow> storeBlock \<and> ?evs \<noteq> []"
    by (auto simp: afterBlock_closed [of storeBlock inSync block st]
        dest: unwatch_trace_members reload_members)
  have d: "Insert_staking evs \<in> set ?out \<longleftrightarrow> evs = ?evs \<and> ?evs \<noteq> []"
    by (auto simp: afterBlock_closed [of storeBlock inSync block st]
        dest: unwatch_trace_members reload_members)
  have e: "Call_reload hs \<in> set ?out \<longleftrightarrow> hs = Some (map hash ?evs) \<and> inSync \<and> ?evs \<noteq> []"
    by (auto simp: afterBlock_closed [of storeBlock inSync block st]
        dest: unwatch_trace_members reload_members)
  note f = afterBlock_registry [of storeBlock inSync block st]
  let ?blk = "\<lparr>header_slot = 1000,
         body = [\<lparr>tx_id = tx0, withdrawals = [], certificates = [StakeKeyRegistration h1]\<rparr>]\<rparr>"
  have g: "isHashWatched st h1 \<longrightarrow>
      afterBlock_events ?blk st = [\<lparr>hash = h1, slot = 1000, txId = tx0, action = Register\<rparr>] \<and>
      afterBlock storeBlock inSync ?blk st =
        (if inSync then fst (reload (Some [h1]) st) else st,
         (if storeBlock then [StoreBlock] else []) @
         [Insert_staking [\<lparr>hash = h1, slot = 1000, txId = tx0, action = Register\<rparr>]] @
         (if inSync then Call_reload (Some [h1]) # snd (reload (Some [h1]) st) else []))"
    by (simp add: afterBlock_def afterBlock_events_def split: prod.splits)
  from a b c d e f g show ?thesis by blast
qed

theorem afterBlock_order_witness:
  "afterBlock True True
     \<lparr>header_slot = 1000,
      body = [\<lparr>tx_id = ''tx0'', withdrawals = [],
               certificates = [StakeKeyRegistration ''c1'']\<rparr>]\<rparr>
     run_watched =
   (run_watched\<lparr>toReload := [''c1'']\<rparr>,
    [StoreBlock,
     Insert_staking [\<lparr>hash = ''c1'', slot = 1000, txId = ''tx0'', action = Register\<rparr>],
     Call_reload (Some [''c1''])]) \<and>
   afterBlock True False
     \<lparr>header_slot = 1000,
      body = [\<lparr>tx_id = ''tx0'', withdrawals = [],
               certificates = [StakeKeyRegistration ''c1'']\<rparr>]\<rparr>
     run_watched =
   (run_watched,
    [StoreBlock,
     Insert_staking [\<lparr>hash = ''c1'', slot = 1000, txId = ''tx0'', action = Register\<rparr>]]) \<and>
   afterBlock True True
     \<lparr>header_slot = 1000,
      body = [\<lparr>tx_id = ''tx0'', withdrawals = [],
               certificates = [StakeKeyRegistration ''c9'']\<rparr>]\<rparr>
     run_watched =
   (run_watched, [])"
proof -
  have w: "isHashWatched run_watched ''c1''"
    by (simp add: run_watched_eq isHashWatched_def jsmap_has_def)
  have n: "afterBlock_events
     \<lparr>header_slot = 1000,
      body = [\<lparr>tx_id = ''tx0'', withdrawals = [],
               certificates = [StakeKeyRegistration ''c9'']\<rparr>]\<rparr>
     run_watched = []"
    by (simp add: afterBlock_events_def run_watched_eq isHashWatched_def jsmap_has_def)
  have r: "reload (Some [''c1'']) run_watched = (run_watched\<lparr>toReload := [''c1'']\<rparr>, [])"
    by (simp add: reload_def run_watched_eq jsset_add_def)
  note scenario = afterBlock_order
    [where block = "\<lparr>header_slot = 1000,
              body = [\<lparr>tx_id = ''tx0'', withdrawals = [],
                       certificates = [StakeKeyRegistration ''c9'']\<rparr>]\<rparr>"
       and st = run_watched and storeBlock = True and evs = "[]" and hs = None
       and ?h1.0 = "''c1''" and ?tx0.0 = "''tx0''"]
  from scenario [where inSync = True] w r
  have 1: "afterBlock True True
     \<lparr>header_slot = 1000,
      body = [\<lparr>tx_id = ''tx0'', withdrawals = [],
               certificates = [StakeKeyRegistration ''c1'']\<rparr>]\<rparr>
     run_watched =
   (run_watched\<lparr>toReload := [''c1'']\<rparr>,
    [StoreBlock,
     Insert_staking [\<lparr>hash = ''c1'', slot = 1000, txId = ''tx0'', action = Register\<rparr>],
     Call_reload (Some [''c1''])])"
    by simp
  from scenario [where inSync = False] w
  have 2: "afterBlock True False
     \<lparr>header_slot = 1000,
      body = [\<lparr>tx_id = ''tx0'', withdrawals = [],
               certificates = [StakeKeyRegistration ''c1'']\<rparr>]\<rparr>
     run_watched =
   (run_watched,
    [StoreBlock,
     Insert_staking [\<lparr>hash = ''c1'', slot = 1000, txId = ''tx0'', action = Register\<rparr>]])"
    by simp
  from scenario [where inSync = True] n
  have 3: "afterBlock True True
     \<lparr>header_slot = 1000,
      body = [\<lparr>tx_id = ''tx0'', withdrawals = [],
               certificates = [StakeKeyRegistration ''c9'']\<rparr>]\<rparr>
     run_watched =
   (run_watched, [])"
    by simp
  from 1 2 3 show ?thesis by simp
qed

subsection \<open>Recovery\<close>

lemma find_filter_implied:
  "(\<And>q. P q \<Longrightarrow> Q q) \<Longrightarrow> find P (filter Q xs) = find P xs"
  by (induction xs) auto

lemma find_filter_none:
  "(\<And>q. P q \<Longrightarrow> \<not> Q q) \<Longrightarrow> find P (filter Q xs) = None"
  by (induction xs) auto

lemma distinct_on_hash_find:
  "x \<in> set (distinct_on_hash xs) \<longleftrightarrow> find (\<lambda>q. hash (snd q) = hash (snd x)) xs = Some x"
proof (induction xs rule: distinct_on_hash.induct)
  case 1
  show ?case by simp
next
  case (2 r rs)
  show ?case
  proof (cases "hash (snd r) = hash (snd x)")
    case True
    have "find (\<lambda>q. hash (snd q) = hash (snd x)) (filter (\<lambda>q. hash (snd q) \<noteq> hash (snd r)) rs) = None"
      using True by (intro find_filter_none) simp
    with True 2 show ?thesis by auto
  next
    case False
    have "find (\<lambda>q. hash (snd q) = hash (snd x)) (filter (\<lambda>q. hash (snd q) \<noteq> hash (snd r)) rs) =
          find (\<lambda>q. hash (snd q) = hash (snd x)) rs"
      using False by (intro find_filter_implied) auto
    with False 2 show ?thesis by auto
  qed
qed

lemma find_sorted_least:
  "sorted (map key xs) \<Longrightarrow> find P xs = Some x \<Longrightarrow>
   x \<in> set xs \<and> P x \<and> (\<forall>y \<in> set xs. P y \<longrightarrow> key x \<le> key y)"
  by (induction xs) (auto split: if_splits)

lemma with_ids_set: "(i, r) \<in> set (with_ids tbl) \<longleftrightarrow> i < length tbl \<and> tbl ! i = r"
proof
  assume "(i, r) \<in> set (with_ids tbl)"
  then show "i < length tbl \<and> tbl ! i = r"
    by (auto simp: with_ids_def set_zip)
next
  assume a: "i < length tbl \<and> tbl ! i = r"
  then have "(i, r) = zip [0..<length tbl] tbl ! i" by simp
  moreover have "i < length (zip [0..<length tbl] tbl)" using a by simp
  ultimately show "(i, r) \<in> set (with_ids tbl)"
    unfolding with_ids_def by (metis nth_mem)
qed

lemma last_filter_max_index:
  assumes "i < length tbl" and "P (tbl ! i)" and "\<forall>j < length tbl. P (tbl ! j) \<longrightarrow> j \<le> i"
  shows "filter P tbl \<noteq> [] \<and> last (filter P tbl) = tbl ! i"
proof -
  have "filter P (drop (Suc i) tbl) = []"
  proof (rule ccontr)
    assume "filter P (drop (Suc i) tbl) \<noteq> []"
    then obtain y where "y \<in> set (drop (Suc i) tbl)" "P y"
      by (auto simp: filter_empty_conv)
    then obtain k where "k < length (drop (Suc i) tbl)" "drop (Suc i) tbl ! k = y"
      by (auto simp: in_set_conv_nth)
    then have "Suc i + k < length tbl" "tbl ! (Suc i + k) = y" by auto
    with \<open>P y\<close> assms(3) have "Suc i + k \<le> i" by blast
    then show False by simp
  qed
  moreover have "tbl = take i tbl @ tbl ! i # drop (Suc i) tbl"
    using assms(1) by (rule id_take_nth_drop)
  then have "filter P tbl = filter P (take i tbl @ tbl ! i # drop (Suc i) tbl)" by simp
  ultimately have "filter P tbl = filter P (take i tbl) @ [tbl ! i]"
    using assms(2) by simp
  then show ?thesis by simp
qed

lemma spec_latest_action_eq:
  "spec_latest_action tbl h =
     (if filter (\<lambda>r. hash r = h) tbl = [] then None
      else Some (action (last (filter (\<lambda>r. hash r = h) tbl))))"
  by (simp add: spec_latest_action_def split: list.splits)

lemma order_by_sorted:
  "sorted (map (\<lambda>(i, r). (hash r, - int i)) (order_by_hash_id_desc rows))"
  unfolding order_by_hash_id_desc_def by (rule sorted_sort_key)

lemma order_by_set: "set (order_by_hash_id_desc rows) = set rows"
  by (simp add: order_by_hash_id_desc_def)

lemma distinct_on_latest:
  assumes "x \<in> set (distinct_on_hash (order_by_hash_id_desc (with_ids tbl)))"
  shows "filter (\<lambda>r. hash r = hash (snd x)) tbl \<noteq> [] \<and>
         last (filter (\<lambda>r. hash r = hash (snd x)) tbl) = snd x"
proof -
  let ?sorted = "order_by_hash_id_desc (with_ids tbl)"
  let ?key = "\<lambda>(i, r). (hash r, - int i)"
  obtain i r where x: "x = (i, r)" by (cases x)
  from assms have "find (\<lambda>q. hash (snd q) = hash (snd x)) ?sorted = Some x"
    by (simp add: distinct_on_hash_find)
  from find_sorted_least [OF order_by_sorted this]
  have mem: "x \<in> set (with_ids tbl)"
    and least: "\<forall>y \<in> set (with_ids tbl). hash (snd y) = hash (snd x) \<longrightarrow> ?key x \<le> ?key y"
    by (simp_all add: order_by_set)
  from mem have i: "i < length tbl" "tbl ! i = r" by (simp_all add: x with_ids_set)
  have "j \<le> i" if "j < length tbl" "hash (tbl ! j) = hash r" for j
  proof -
    from that(1) have "(j, tbl ! j) \<in> set (with_ids tbl)" by (simp add: with_ids_set)
    with least that(2) have "?key x \<le> ?key (j, tbl ! j)" by (auto simp: x)
    with that(2) show ?thesis by (simp add: x)
  qed
  then have "\<forall>j < length tbl. hash (tbl ! j) = hash r \<longrightarrow> j \<le> i" by blast
  from last_filter_max_index [of i tbl "\<lambda>r'. hash r' = hash r", OF i(1) _ this] i(2)
  show ?thesis by (simp add: x)
qed

lemma distinct_on_covers:
  assumes "filter (\<lambda>r. hash r = h) tbl \<noteq> []"
  shows "\<exists>x \<in> set (distinct_on_hash (order_by_hash_id_desc (with_ids tbl))). hash (snd x) = h"
proof -
  let ?sorted = "order_by_hash_id_desc (with_ids tbl)"
  from assms obtain r where "r \<in> set tbl" "hash r = h" by (auto simp: filter_empty_conv)
  then obtain i where "i < length tbl" "tbl ! i = r" by (auto simp: in_set_conv_nth)
  then have "(i, r) \<in> set ?sorted" by (simp add: order_by_set with_ids_set)
  with \<open>hash r = h\<close> have "find (\<lambda>q. hash (snd q) = h) ?sorted \<noteq> None"
    by (auto simp: find_None_iff)
  then obtain x where f: "find (\<lambda>q. hash (snd q) = h) ?sorted = Some x" by auto
  then have hx: "hash (snd x) = h" by (auto simp: find_Some_iff)
  with f have "x \<in> set (distinct_on_hash ?sorted)" by (simp add: distinct_on_hash_find)
  with hx show ?thesis by blast
qed

lemma select_active_hashes_set:
  "h \<in> set (select_active_hashes tbl) \<longleftrightarrow>
   (\<exists>a. spec_latest_action tbl h = Some a \<and> a \<noteq> Deregister)"
proof
  assume "h \<in> set (select_active_hashes tbl)"
  then obtain x where x: "x \<in> set (distinct_on_hash (order_by_hash_id_desc (with_ids tbl)))"
    "hash (snd x) = h" "action (snd x) \<noteq> Deregister"
    by (auto simp: select_active_hashes_def)
  from distinct_on_latest [OF x(1)] x(2,3)
  show "\<exists>a. spec_latest_action tbl h = Some a \<and> a \<noteq> Deregister"
    by (simp add: spec_latest_action_eq)
next
  assume "\<exists>a. spec_latest_action tbl h = Some a \<and> a \<noteq> Deregister"
  then have ne: "filter (\<lambda>r. hash r = h) tbl \<noteq> []"
    and a: "action (last (filter (\<lambda>r. hash r = h) tbl)) \<noteq> Deregister"
    by (auto simp: spec_latest_action_eq split: if_splits)
  from distinct_on_covers [OF ne] obtain x
    where x: "x \<in> set (distinct_on_hash (order_by_hash_id_desc (with_ids tbl)))" "hash (snd x) = h"
    by blast
  from distinct_on_latest [OF x(1)] x(2) a have "action (snd x) \<noteq> Deregister" by simp
  with x have "(h, True) \<in> (\<lambda>(i, r). (hash r, action r \<noteq> Deregister)) `
      set (distinct_on_hash (order_by_hash_id_desc (with_ids tbl)))"
    by (intro image_eqI [of _ _ x]) (auto split: prod.splits)
  then have "(h, True) \<in> set (filter snd
          (map (\<lambda>(i, r). (hash r, action r \<noteq> Deregister))
             (distinct_on_hash (order_by_hash_id_desc (with_ids tbl)))))"
    by simp
  then have "fst (h, True) \<in> fst ` set (filter snd
          (map (\<lambda>(i, r). (hash r, action r \<noteq> Deregister))
             (distinct_on_hash (order_by_hash_id_desc (with_ids tbl)))))"
    by (rule imageI)
  then show "h \<in> set (select_active_hashes tbl)"
    by (simp add: select_active_hashes_def)
qed

lemma batchWatch_loop_registry:
  "map_of (registry (batchWatch_loop d hs ty s)) h =
     (if h \<in> set hs then Some (d ty h) else map_of (registry s) h)"
  by (induction hs arbitrary: s) (simp_all add: Let_def map_of_jsmap_set)

lemma batchWatch_loop_frame:
  "toReload (batchWatch_loop d hs ty s) = toReload s \<and>
   toRemove (batchWatch_loop d hs ty s) = toRemove s \<and>
   fullReload (batchWatch_loop d hs ty s) = fullReload s"
  by (induction hs arbitrary: s) (simp_all add: Let_def)

lemma clear_resumed_clear:
  "clear s = (fst (clear_resumed s), Queue_pause # snd (clear_resumed s))"
  by (simp add: clear_def clear_resumed_def)

lemma reboot_drained_before_rows_closed:
  "reboot d tbl Drained_before_rows s =
     (batchWatch_loop d (select_active_hashes tbl) Script
        (s\<lparr>registry := [], revRegistry := [], toReload := [], toRemove := [],
           fullReload := False\<rparr>),
      [Queue_pause, Select_active_hashes, Queue_drained, Queue_resume, Console_log Clear,
       Console_log (Watched_batch (length (select_active_hashes tbl)) Script),
       Console_log Reboot])"
  by (simp add: reboot_def clear_resumed_def batchWatch_def)

text \<open>
  When the queue drains before the rows arrive, \<^verbatim>\<open>reboot\<close> recovers the watch set: a
  credential is watched afterwards exactly when its most recent logged action is not a
  deregistration, under the kind \<^verbatim>\<open>Script\<close>, and no reload is requested.
\<close>

lemma reboot_drained_before_rows:
  "(isHashWatched (fst (reboot d tbl Drained_before_rows s)) h \<longleftrightarrow>
      (\<exists>a. spec_latest_action tbl h = Some a \<and> a \<noteq> Deregister)) \<and>
   (isHashWatched (fst (reboot d tbl Drained_before_rows s)) h \<longrightarrow>
      fromHash (fst (reboot d tbl Drained_before_rows s)) h = Some (d Script h)) \<and>
   \<not> fullReload (fst (reboot d tbl Drained_before_rows s)) \<and>
   toReload (fst (reboot d tbl Drained_before_rows s)) = []"
  by (simp add: reboot_drained_before_rows_closed isHashWatched_def fromHash_def jsmap_has_def
      jsmap_get_def batchWatch_loop_registry batchWatch_loop_frame select_active_hashes_set)

lemma run_in_flight_eq:
  "run_in_flight =
     \<lparr>toReload = [], toRemove = [], registry = [(''c1'', ''f1c1'')],
      revRegistry = [(''f1c1'', ''c1'')], fullReload = False,
      willReloadDynamically = False, isActive = True\<rparr>"
  by (simp add: run_in_flight_def run_watched_eq reload_def doReload_begin_def)

lemma select_active_hashes_log_xy: "select_active_hashes log_xy = [''x'']"
  unfolding log_xy_def by code_simp

text \<open>
  Claim C9. After \<^verbatim>\<open>reboot()\<close> exactly the credentials whose most recent logged action is
  not a deregistration should be watched. Here \<^verbatim>\<open>c1\<close> is watched, with no row in the log,
  and a full reload is in flight when \<^verbatim>\<open>reboot\<close> is called; the rows of the query arrive
  before the reload ends. When \<^verbatim>\<open>reboot\<close> returns, \<^verbatim>\<open>c1\<close> is still watched next to \<^verbatim>\<open>x\<close>.
  When the reload then ends and the queue drains, the reset of the un-awaited \<^verbatim>\<open>clear\<close>
  runs and empties both maps: \<^verbatim>\<open>x\<close>, whose last action is a withdrawal, is not watched.
\<close>

theorem reboot_in_flight_loses_watch_set:
  "reboot rewardAddressHex log_xy Drained_after_rows run_in_flight =
     (\<lparr>toReload = [], toRemove = [],
       registry = [(''c1'', ''f1c1''), (''x'', ''f1x'')],
       revRegistry = [(''f1c1'', ''c1''), (''f1x'', ''x'')],
       fullReload = False, willReloadDynamically = False, isActive = True\<rparr>,
      [Queue_pause, Select_active_hashes, Console_log (Watched_batch 1 Script),
       Console_log Reboot]) \<and>
   spec_latest_action log_xy ''c1'' = None \<and>
   isHashWatched (fst (reboot rewardAddressHex log_xy Drained_after_rows run_in_flight)) ''c1'' \<and>
   fst (clear_resumed
     (fst (doReload_merge slotOf Origin answer_c1
        (fst (reboot rewardAddressHex log_xy Drained_after_rows run_in_flight)) [] []))) =
     \<lparr>toReload = [], toRemove = [], registry = [], revRegistry = [],
      fullReload = False, willReloadDynamically = False, isActive = True\<rparr> \<and>
   spec_latest_action log_xy ''x'' = Some (Withdraw 7) \<and>
   \<not> isHashWatched
     (fst (clear_resumed
        (fst (doReload_merge slotOf Origin answer_c1
           (fst (reboot rewardAddressHex log_xy Drained_after_rows run_in_flight)) [] []))))
     ''x''"
proof -
  have r: "reboot rewardAddressHex log_xy Drained_after_rows run_in_flight =
     (\<lparr>toReload = [], toRemove = [],
       registry = [(''c1'', ''f1c1''), (''x'', ''f1x'')],
       revRegistry = [(''f1c1'', ''c1''), (''f1x'', ''x'')],
       fullReload = False, willReloadDynamically = False, isActive = True\<rparr>,
      [Queue_pause, Select_active_hashes, Console_log (Watched_batch 1 Script),
       Console_log Reboot])"
    by (simp add: reboot_def batchWatch_def select_active_hashes_log_xy run_in_flight_eq
        rewardAddressHex_def Let_def)
  have l: "spec_latest_action log_xy ''c1'' = None"
    "spec_latest_action log_xy ''x'' = Some (Withdraw 7)"
    by (simp_all add: spec_latest_action_def log_xy_def)
  show ?thesis
    unfolding r
    by (simp add: l answer_c1_def clear_resumed_def isHashWatched_def jsmap_has_def
        jsmap_get_def jsset_has_def slotOf_def Let_def)
qed

end
